theory Spec2Isabelle
  imports Main "HOL-Library.Word"
begin

unbundle bit_operations_syntax

section \<open>Enums and constants\<close>

text \<open>The five-valued direction enum of \<^verbatim>\<open>maze.js\<close>.\<close>

datatype Direction = North | East | South | West | Uninitialized

text \<open>A cell state word is an element of an \<^verbatim>\<open>Int32Array\<close>; the bit operators of the
  source work on 32-bit values.\<close>

type_synonym cell = "32 word"

definition EAST_BIT :: cell where "EAST_BIT = 1"
definition SOUTH_BIT :: cell where "SOUTH_BIT = 2"
definition VISITED_BIT :: cell where "VISITED_BIT = 4"
definition PATH_BIT :: cell where "PATH_BIT = 8"
definition PARENT_NORTH :: cell where "PARENT_NORTH = 16"
definition PARENT_EAST :: cell where "PARENT_EAST = 32"
definition PARENT_SOUTH :: cell where "PARENT_SOUTH = 64"
definition PARENT_WEST :: cell where "PARENT_WEST = 128"
definition PARENT_MASK :: cell where "PARENT_MASK = 240"
definition ON_STACK_BIT :: cell where "ON_STACK_BIT = 256"
definition DEAD_N :: cell where "DEAD_N = 4096"
definition DEAD_E :: cell where "DEAD_E = 8192"
definition DEAD_S :: cell where "DEAD_S = 16384"
definition DEAD_W :: cell where "DEAD_W = 32768"
definition OCCUPIED_N :: cell where "OCCUPIED_N = 65536"
definition OCCUPIED_E :: cell where "OCCUPIED_E = 131072"
definition OCCUPIED_S :: cell where "OCCUPIED_S = 262144"
definition OCCUPIED_W :: cell where "OCCUPIED_W = 524288"
definition VISITED_TB :: cell where "VISITED_TB = 1048576"
definition VISITED_BT :: cell where "VISITED_BT = 2097152"
definition DEAD_JUNCTION_BIT :: cell where "DEAD_JUNCTION_BIT = 4194304"
definition PRUNED_BIT :: cell where "PRUNED_BIT = 8388608"

lemmas InternalBit_defs =
  EAST_BIT_def SOUTH_BIT_def VISITED_BIT_def PATH_BIT_def PARENT_NORTH_def PARENT_EAST_def
  PARENT_SOUTH_def PARENT_WEST_def PARENT_MASK_def ON_STACK_BIT_def DEAD_N_def DEAD_E_def
  DEAD_S_def DEAD_W_def OCCUPIED_N_def OCCUPIED_E_def OCCUPIED_S_def OCCUPIED_W_def
  VISITED_TB_def VISITED_BT_def DEAD_JUNCTION_BIT_def PRUNED_BIT_def

section \<open>Helper classes\<close>

datatype Position = Position (row: int) (col: int)

text \<open>\<^verbatim>\<open>Position.move\<close>: the four cardinal cases in the order of the source, and
  \<^verbatim>\<open>return this\<close> for anything else.\<close>

fun move :: "Position \<Rightarrow> Direction \<Rightarrow> Position" where
  "move p North = Position (row p - 1) (col p)"
| "move p South = Position (row p + 1) (col p)"
| "move p East = Position (row p) (col p + 1)"
| "move p West = Position (row p) (col p - 1)"
| "move p Uninitialized = p"

fun reverseDir :: "Direction \<Rightarrow> Direction" where
  "reverseDir North = South"
| "reverseDir South = North"
| "reverseDir East = West"
| "reverseDir West = East"
| "reverseDir Uninitialized = Uninitialized"

section \<open>Maze and shared data\<close>

text \<open>The cell store: dimensions, the state words (row-major), the visit-order array and the
  sparse ownership map from cell index to walker id.\<close>

text \<open>The two arrays of a maze are plain JavaScript arrays (\<^verbatim>\<open>[]\<close>) from the constructor until
  \<^verbatim>\<open>Load\<close> replaces them by \<^verbatim>\<open>Int32Array\<close>s. A plain array keeps a value under every
  integer key it is given, the latest binding first in the list here; its length is one more
  than the largest array index (a key from 0 to \<open>2^32 - 2\<close>) written so far. An
  \<^verbatim>\<open>Int32Array\<close> has a fixed length.\<close>

datatype 'a js_array = Plain "(int \<times> 'a) list" | Int32Array "'a list"

text \<open>Reading a typed array outside its range gives \<^verbatim>\<open>undefined\<close> (here \<open>None\<close>); writing
  outside its range is ignored.\<close>

definition typed_get :: "'a list \<Rightarrow> int \<Rightarrow> 'a option" where
  "typed_get xs i = (if 0 \<le> i \<and> i < int (length xs) then Some (xs ! nat i) else None)"

definition typed_set :: "'a list \<Rightarrow> int \<Rightarrow> 'a \<Rightarrow> 'a list" where
  "typed_set xs i v = (if 0 \<le> i \<and> i < int (length xs) then xs[nat i := v] else xs)"

text \<open>\<^verbatim>\<open>a[i]\<close>, \<^verbatim>\<open>a[i] = v\<close> and \<^verbatim>\<open>a.length\<close> for both kinds of array. A key that was never
  written reads \<^verbatim>\<open>undefined\<close> (\<open>None\<close>).\<close>

fun js_get :: "'a js_array \<Rightarrow> int \<Rightarrow> 'a option" where
  "js_get (Int32Array xs) i = typed_get xs i"
| "js_get (Plain kvs) i = map_of kvs i"

fun js_set :: "'a js_array \<Rightarrow> int \<Rightarrow> 'a \<Rightarrow> 'a js_array" where
  "js_set (Int32Array xs) i v = Int32Array (typed_set xs i v)"
| "js_set (Plain kvs) i v = Plain ((i, v) # kvs)"



record Maze =
  width :: int
  height :: int
  poMazeData :: "cell js_array"
  visitOrder :: "int js_array"
  thread_ownership :: "int \<rightharpoonup> int"

definition cellIndex :: "Maze \<Rightarrow> Position \<Rightarrow> int" where
  "cellIndex m pos = row pos * width m + col pos"

definition in_grid :: "Maze \<Rightarrow> Position \<Rightarrow> bool" where
  "in_grid m pos \<longleftrightarrow> row pos \<ge> 0 \<and> row pos < height m \<and> col pos \<ge> 0 \<and> col pos < width m"

text \<open>\<^verbatim>\<open>getCell\<close>: 0 outside the grid. Inside the grid a key that the array does not hold
  reads \<^verbatim>\<open>undefined\<close>, which every caller passes to \<^verbatim>\<open>&\<close> or \<^verbatim>\<open>|\<close>, where it acts as 0.\<close>

definition getCell :: "Maze \<Rightarrow> Position \<Rightarrow> cell" where
  "getCell m pos =
     (if in_grid m pos
      then (case js_get (poMazeData m) (cellIndex m pos) of Some v \<Rightarrow> v | None \<Rightarrow> 0)
      else 0)"

text \<open>\<^verbatim>\<open>setCell\<close> has no bounds check: the write goes to whatever key \<^verbatim>\<open>_cellIndex\<close> gives. Every
  caller passes the result of a bit operation, a 32-bit value.\<close>

definition setCell :: "Maze \<Rightarrow> Position \<Rightarrow> cell \<Rightarrow> Maze" where
  "setCell m pos v = m\<lparr>poMazeData := js_set (poMazeData m) (cellIndex m pos) v\<rparr>"

definition hasFlag :: "Maze \<Rightarrow> Position \<Rightarrow> cell \<Rightarrow> bool" where
  "hasFlag m pos v \<longleftrightarrow> (getCell m pos AND v) \<noteq> 0"

definition setFlag :: "Maze \<Rightarrow> Position \<Rightarrow> cell \<Rightarrow> Maze" where
  "setFlag m pos v = setCell m pos (getCell m pos OR v)"

definition clearFlag :: "Maze \<Rightarrow> Position \<Rightarrow> cell \<Rightarrow> Maze" where
  "clearFlag m pos v = setCell m pos (getCell m pos AND NOT v)"

definition getStart :: "Maze \<Rightarrow> Position" where
  "getStart m = Position 0 (width m div 2)"

definition getEnd :: "Maze \<Rightarrow> Position" where
  "getEnd m = Position (height m - 1) (width m div 2)"

fun canMove :: "Maze \<Rightarrow> Position \<Rightarrow> Direction \<Rightarrow> bool" where
  "canMove m pos North =
     (if row pos = 0 then False else \<not> hasFlag m (move pos North) SOUTH_BIT)"
| "canMove m pos South =
     (if row pos = height m - 1 then False else \<not> hasFlag m pos SOUTH_BIT)"
| "canMove m pos East =
     (if col pos = width m - 1 then False else \<not> hasFlag m pos EAST_BIT)"
| "canMove m pos West =
     (if col pos = 0 then False else \<not> hasFlag m (move pos West) EAST_BIT)"
| "canMove m pos Uninitialized = False"

definition isJunction :: "Maze \<Rightarrow> Position \<Rightarrow> bool" where
  "isJunction m pos \<longleftrightarrow>
     (let exits = (0::nat);
          exits = (if canMove m pos North then exits + 1 else exits);
          exits = (if canMove m pos South then exits + 1 else exits);
          exits = (if canMove m pos East then exits + 1 else exits);
          exits = (if canMove m pos West then exits + 1 else exits)
      in exits > 2)"

text \<open>An \<^verbatim>\<open>Int32Array\<close> element keeps the low 32 bits of the number stored, read back as a
  signed value; a plain array keeps the number as it is.\<close>

definition to_int32 :: "int \<Rightarrow> int" where
  "to_int32 x = (x + 2 ^ 31) mod 2 ^ 32 - 2 ^ 31"

fun store_number :: "int js_array \<Rightarrow> int \<Rightarrow> int \<Rightarrow> int js_array" where
  "store_number (Int32Array xs) i v = js_set (Int32Array xs) i (to_int32 v)"
| "store_number (Plain kvs) i v = js_set (Plain kvs) i v"

definition setVisitOrder :: "Maze \<Rightarrow> Position \<Rightarrow> int \<Rightarrow> Maze" where
  "setVisitOrder m pos order' =
     m\<lparr>visitOrder := store_number (visitOrder m) (cellIndex m pos) order'\<rparr>"

definition getVisitOrder :: "Maze \<Rightarrow> Position \<Rightarrow> int option" where
  "getVisitOrder m pos = js_get (visitOrder m) (cellIndex m pos)"

subsection \<open>BFS/DFS helpers\<close>

definition parent_bit :: "Direction \<Rightarrow> cell" where
  "parent_bit d = (case d of North \<Rightarrow> PARENT_NORTH | East \<Rightarrow> PARENT_EAST
                   | South \<Rightarrow> PARENT_SOUTH | West \<Rightarrow> PARENT_WEST | Uninitialized \<Rightarrow> 0)"

definition setDirectionRouteBT :: "Maze \<Rightarrow> Position \<Rightarrow> Direction \<Rightarrow> Maze" where
  "setDirectionRouteBT m pos parent_dir =
     (let val = getCell m pos;
          val = val AND NOT PARENT_MASK;
          val = val OR VISITED_BIT;
          val = val OR parent_bit parent_dir
      in setCell m pos val)"

definition getDirectionRouteBT :: "Maze \<Rightarrow> Position \<Rightarrow> Direction" where
  "getDirectionRouteBT m pos =
     (let val = getCell m pos in
      if val AND PARENT_NORTH \<noteq> 0 then North
      else if val AND PARENT_EAST \<noteq> 0 then East
      else if val AND PARENT_SOUTH \<noteq> 0 then South
      else if val AND PARENT_WEST \<noteq> 0 then West
      else Uninitialized)"

definition markPath :: "Maze \<Rightarrow> Position \<Rightarrow> Maze" where
  "markPath m pos = setFlag m pos PATH_BIT"

definition markOnStack :: "Maze \<Rightarrow> Position \<Rightarrow> bool \<Rightarrow> Maze" where
  "markOnStack m pos on_stack =
     (if on_stack then setFlag m pos ON_STACK_BIT else clearFlag m pos ON_STACK_BIT)"

subsection \<open>MT-specific bit operations\<close>

definition dead_bit :: "Direction \<Rightarrow> cell" where
  "dead_bit d = (case d of North \<Rightarrow> DEAD_N | East \<Rightarrow> DEAD_E | South \<Rightarrow> DEAD_S
                 | West \<Rightarrow> DEAD_W | Uninitialized \<Rightarrow> 0)"

definition occupied_bit :: "Direction \<Rightarrow> cell" where
  "occupied_bit d = (case d of North \<Rightarrow> OCCUPIED_N | East \<Rightarrow> OCCUPIED_E
                     | South \<Rightarrow> OCCUPIED_S | West \<Rightarrow> OCCUPIED_W | Uninitialized \<Rightarrow> 0)"

definition checkBranchDead :: "Maze \<Rightarrow> Position \<Rightarrow> Direction \<Rightarrow> bool" where
  "checkBranchDead m pos dir = hasFlag m pos (dead_bit dir)"

definition setBranchDeadFromOrigin :: "Maze \<Rightarrow> Position \<Rightarrow> Direction \<Rightarrow> Maze" where
  "setBranchDeadFromOrigin m pos dir = setFlag m pos (dead_bit dir)"

definition checkBranchOccupied :: "Maze \<Rightarrow> Position \<Rightarrow> Direction \<Rightarrow> bool" where
  "checkBranchOccupied m pos dir = hasFlag m pos (occupied_bit dir)"

definition setBranchOccupied :: "Maze \<Rightarrow> Position \<Rightarrow> Direction \<Rightarrow> Maze" where
  "setBranchOccupied m pos dir = setFlag m pos (occupied_bit dir)"

definition markVisitedTeam :: "Maze \<Rightarrow> Position \<Rightarrow> bool \<Rightarrow> Maze" where
  "markVisitedTeam m pos is_tb =
     (if is_tb then setFlag m pos VISITED_TB else setFlag m pos VISITED_BT)"

definition markDeadJunction :: "Maze \<Rightarrow> Position \<Rightarrow> Maze" where
  "markDeadJunction m pos =
     setFlag (clearFlag (clearFlag m pos VISITED_TB) pos VISITED_BT) pos DEAD_JUNCTION_BIT"

definition unmarkVisitedTeam :: "Maze \<Rightarrow> Position \<Rightarrow> Maze" where
  "unmarkVisitedTeam m pos =
     clearFlag (clearFlag (clearFlag m pos VISITED_TB) pos VISITED_BT) pos VISITED_BIT"

definition isVisitedByTeam :: "Maze \<Rightarrow> Position \<Rightarrow> bool \<Rightarrow> bool" where
  "isVisitedByTeam m pos is_tb =
     (if is_tb then hasFlag m pos VISITED_TB else hasFlag m pos VISITED_BT)"

definition setThreadOwner :: "Maze \<Rightarrow> Position \<Rightarrow> int \<Rightarrow> Maze" where
  "setThreadOwner m pos thread_id =
     m\<lparr>thread_ownership := (thread_ownership m)(cellIndex m pos \<mapsto> thread_id)\<rparr>"

definition getThreadOwner :: "Maze \<Rightarrow> Position \<Rightarrow> int" where
  "getThreadOwner m pos =
     (case thread_ownership m (cellIndex m pos) of Some v \<Rightarrow> v | None \<Rightarrow> -1)"

subsection \<open>MT-M1 helpers\<close>

definition markPruned :: "Maze \<Rightarrow> Position \<Rightarrow> Maze" where
  "markPruned m pos = setFlag m pos PRUNED_BIT"

definition isPruned :: "Maze \<Rightarrow> Position \<Rightarrow> bool" where
  "isPruned m pos = hasFlag m pos PRUNED_BIT"

definition getAvailableMovesNoPruned :: "Maze \<Rightarrow> Position \<Rightarrow> Direction list" where
  "getAvailableMovesNoPruned m pos =
     filter (\<lambda>d. canMove m pos d \<and> \<not> isPruned m (move pos d)) [North, South, East, West]"

subsection \<open>Reset\<close>




subsection \<open>Load\<close>

text \<open>The errors the source can raise: a \<^verbatim>\<open>RangeError\<close> from \<^verbatim>\<open>DataView.getInt32\<close> or from
  the typed-array constructor, and a \<^verbatim>\<open>TypeError\<close> from a property access on
  \<^verbatim>\<open>null\<close> or \<^verbatim>\<open>undefined\<close>.\<close>

datatype error = RangeError | TypeError

text \<open>\<^verbatim>\<open>view.getInt32(offset, true)\<close>: four bytes, little-endian; a \<^verbatim>\<open>RangeError\<close> when
  they are not all inside the buffer.\<close>

definition getInt32 :: "8 word list \<Rightarrow> nat \<Rightarrow> error + 32 word" where
  "getInt32 buf off =
     (if off + 4 \<le> length buf
      then Inr (ucast (buf ! off) OR push_bit 8 (ucast (buf ! (off + 1)))
                OR push_bit 16 (ucast (buf ! (off + 2))) OR push_bit 24 (ucast (buf ! (off + 3))))
      else Inl RangeError)"

text \<open>The inner \<^verbatim>\<open>for (let i = 0; i < 16; i++)\<close> loop of \<^verbatim>\<open>Load\<close>; the first argument counts
  the iterations left.\<close>

fun load_cells :: "nat \<Rightarrow> int \<Rightarrow> int \<Rightarrow> cell list \<Rightarrow> 32 word \<Rightarrow> int \<Rightarrow> cell list \<times> int" where
  "load_cells 0 w r data bits c = (data, c)"
| "load_cells (Suc k) w r data bits c =
     (if c \<ge> w then (data, c)
      else
        let east = bits AND 1;
            south = signed_drop_bit 1 bits AND 1;
            idx = r * w + c;
            val = (0::cell);
            val = (if east \<noteq> 0 then val OR EAST_BIT else val);
            val = (if south \<noteq> 0 then val OR SOUTH_BIT else val)
        in load_cells k w r (typed_set data idx val) (signed_drop_bit 2 bits) (c + 1))"

lemma load_cells_col_mono: "c \<le> snd (load_cells k w r data bits c)"
proof (induction k arbitrary: data bits c)
  case 0
  show ?case by simp
next
  case (Suc k)
  show ?case
  proof (cases "c \<ge> w")
    case True
    then show ?thesis by simp
  next
    case False
    have "c \<le> snd (load_cells k w r d b (c + 1))" for d b
      using Suc.IH [where c = "c + 1" and data = d and bits = b] by linarith
    with False show ?thesis by (simp add: Let_def)
  qed
qed

lemma load_cells_col_progress:
  assumes "c < w" and "load_cells (Suc k) w r data bits c = (data', c')"
  shows "c < c'"
proof -
  have "\<exists>d b. load_cells (Suc k) w r data bits c = load_cells k w r d b (c + 1)"
    using assms(1) by (auto simp: Let_def)
  then obtain d b where "load_cells (Suc k) w r data bits c = load_cells k w r d b (c + 1)"
    by blast
  with assms(2) have "c' = snd (load_cells k w r d b (c + 1))" by (metis snd_conv)
  with load_cells_col_mono [where c = "c + 1" and k = k and w = w and r = r and data = d
      and bits = b]
  show "c < c'" by linarith
qed

lemma load_cells_16_progress:
  "(data', c') = load_cells 16 w r data bits c \<Longrightarrow> c < w \<Longrightarrow> c < c'"
  using load_cells_col_progress [of c w 15 r data bits data' c']
  by (simp add: numeral_eq_Suc del: load_cells.simps)

declare load_cells.simps [simp del]

text \<open>The \<^verbatim>\<open>while (col < this.width)\<close> loop of one row: it stops without an error when the
  offset has reached the end of the buffer, and reads one 32-bit word otherwise.\<close>

function load_row ::
  "8 word list \<Rightarrow> int \<Rightarrow> int \<Rightarrow> cell list \<Rightarrow> nat \<Rightarrow> int \<Rightarrow> error + (cell list \<times> nat)" where
  "load_row buf w r data offset c =
     (if c < w then
        (if offset \<ge> length buf then Inr (data, offset)
         else (case getInt32 buf offset of
                 Inl e \<Rightarrow> Inl e
               | Inr bits \<Rightarrow>
                   (case load_cells 16 w r data bits c of
                      (data', c') \<Rightarrow> load_row buf w r data' (offset + 4) c')))
      else Inr (data, offset))"
  by pat_completeness auto
termination
  apply (relation "measure (\<lambda>(buf, w, r, data, offset, c). nat (w - c))")
   apply simp
  apply (auto dest: load_cells_16_progress)
  done

declare load_row.simps [simp del]

text \<open>The \<^verbatim>\<open>for (let row = 0; row < this.height; row++)\<close> loop, over the list of its row
  numbers.\<close>

fun load_rows ::
  "8 word list \<Rightarrow> int \<Rightarrow> int list \<Rightarrow> cell list \<Rightarrow> nat \<Rightarrow> error + (cell list \<times> nat)" where
  "load_rows buf w [] data offset = Inr (data, offset)"
| "load_rows buf w (r # rs) data offset =
     (case load_row buf w r data offset 0 of
        Inl e \<Rightarrow> Inl e
      | Inr (data', offset') \<Rightarrow> load_rows buf w rs data' offset')"

text \<open>\<^verbatim>\<open>Load\<close>, with the fetched buffer as its argument. \<^verbatim>\<open>new Int32Array(size)\<close> raises a
  \<^verbatim>\<open>RangeError\<close> for a negative size and for one above \<open>2^53 - 1\<close>; below that bound the
  product of the two header fields is exact. Memory limits of the engine are not modelled.\<close>

definition Load :: "Maze \<Rightarrow> 8 word list \<Rightarrow> error + Maze" where
  "Load m buf =
     (case getInt32 buf 0 of Inl e \<Rightarrow> Inl e | Inr wv \<Rightarrow>
     (case getInt32 buf 4 of Inl e \<Rightarrow> Inl e | Inr hv \<Rightarrow>
     (case getInt32 buf 8 of Inl e \<Rightarrow> Inl e | Inr solvable \<Rightarrow>
        (let w = sint wv; h = sint hv; size' = w * h in
         if size' < 0 \<or> size' > 2 ^ 53 - 1 then Inl RangeError
         else
           (case load_rows buf w (map int [0..<nat h]) (replicate (nat size') 0) 12 of
              Inl e \<Rightarrow> Inl e
            | Inr (data, offset) \<Rightarrow>
                Inr (m\<lparr>width := w, height := h, poMazeData := Int32Array data,
                       visitOrder := Int32Array (replicate (nat size') (- 1))\<rparr>))))))"

text \<open>The maze object as its constructor leaves it: both arrays are the plain array \<^verbatim>\<open>[]\<close>.\<close>

definition Maze_new :: Maze where
  "Maze_new = \<lparr>width = 0, height = 0, poMazeData = Plain [], visitOrder = Plain [],
               thread_ownership = Map.empty\<rparr>"

section \<open>Geometry\<close>

text \<open>A 1x1 maze without walls, used at several concrete inputs below.\<close>

definition maze_1x1 :: Maze where
  "maze_1x1 = \<lparr>width = 1, height = 1, poMazeData = Int32Array [0],
               visitOrder = Int32Array [-1],
               thread_ownership = Map.empty\<rparr>"

text \<open>C5 as stated fails: the cell (0,0) of the 1x1 maze cannot move North (it is in row 0),
  but from the position (-1,0) above the grid \<^verbatim>\<open>canMove\<close> answers true for South, because
  \<^verbatim>\<open>getCell\<close> reads 0 there and row -1 is not the last row.\<close>

theorem canMove_symmetric_counterexample:
  "canMove maze_1x1 (Position 0 0) North
     \<noteq> canMove maze_1x1 (move (Position 0 0) North) (reverseDir North)"
  by (simp add: maze_1x1_def hasFlag_def getCell_def in_grid_def)

text \<open>C5 amended: for every position \<open>p\<close> and direction \<open>d\<close> such that both \<open>p\<close> and
  \<open>p.move(d)\<close> lie inside the grid, \<open>canMove(p, d)\<close> equals
  \<open>canMove(p.move(d), reverseDir(d))\<close>.\<close>

theorem canMove_symmetric_in_grid:
  "in_grid m p \<Longrightarrow> in_grid m (move p d) \<Longrightarrow>
     canMove m p d = canMove m (move p d) (reverseDir d)"
  by (cases d; cases p) (auto simp: in_grid_def)

theorem canMove_symmetric_in_grid_witness:
  "in_grid (maze_1x1\<lparr>height := 2, poMazeData := Int32Array [0, 0]\<rparr>) (Position 0 0)
   \<and> in_grid (maze_1x1\<lparr>height := 2, poMazeData := Int32Array [0, 0]\<rparr>) (move (Position 0 0) South)
   \<and> canMove (maze_1x1\<lparr>height := 2, poMazeData := Int32Array [0, 0]\<rparr>) (Position 0 0) South
   \<and> canMove (maze_1x1\<lparr>height := 2, poMazeData := Int32Array [0, 0]\<rparr>) (Position 1 0) North"
  using canMove_symmetric_in_grid
          [of "maze_1x1\<lparr>height := 2, poMazeData := Int32Array [0, 0]\<rparr>" "Position 0 0" South]
  by (simp add: maze_1x1_def in_grid_def hasFlag_def getCell_def typed_get_def cellIndex_def
        SOUTH_BIT_def)

text \<open>C10: the geometry primitives on the fifth enum value: \<open>p.move(Uninitialized)\<close> is \<open>p\<close>
  and \<open>canMove(p, Uninitialized)\<close> is false, for every maze and position; both are plain
  values of total functions, so neither call faults.\<close>

theorem geometry_total_on_Uninitialized:
  "move p Uninitialized = p \<and> \<not> canMove m p Uninitialized"
  by simp

section \<open>Reset and the reachable maze states\<close>




text \<open>The length of an \<^verbatim>\<open>Int32Array\<close>; \<open>None\<close> for a plain array.\<close>

fun typed_length :: "'a js_array \<Rightarrow> nat option" where
  "typed_length (Int32Array xs) = Some (length xs)"
| "typed_length (Plain kvs) = None"










lemma typed_length_js_set [simp]: "typed_length (js_set a i v) = typed_length a"
  by (cases a) (simp_all add: typed_set_def)

lemma typed_length_store_number [simp]: "typed_length (store_number a i v) = typed_length a"
  by (cases a) (simp_all add: typed_set_def)








text \<open>The state word \<^verbatim>\<open>Load\<close> computes for a cell from the two low bits of the input word.\<close>

definition wall_bits :: "32 word \<Rightarrow> cell" where
  "wall_bits bits = (if bits AND 1 \<noteq> 0 then EAST_BIT else 0)
                    OR (if signed_drop_bit 1 bits AND 1 \<noteq> 0 then SOUTH_BIT else 0)"


lemma load_cells_step:
  "c < w \<Longrightarrow>
     load_cells (Suc k) w r data bits c
       = load_cells k w r (typed_set data (r * w + c) (wall_bits bits))
           (signed_drop_bit 2 bits) (c + 1)"
  by (simp add: load_cells.simps Let_def wall_bits_def)













lemma load_cells_numeral:
  "load_cells (numeral n) w r data bits c =
     (if c \<ge> w then (data, c)
      else load_cells (pred_numeral n) w r (typed_set data (r * w + c) (wall_bits bits))
             (signed_drop_bit 2 bits) (c + 1))"
  using load_cells_step [of c w "pred_numeral n" r data bits]
  by (simp add: numeral_eq_Suc load_cells.simps)

lemmas Load_eval = Load_def getInt32_def load_row.simps load_cells_numeral load_cells.simps(1)
  wall_bits_def typed_set_def InternalBit_defs






section \<open>Malformed maze blobs\<close>

text \<open>A 32-bit header field read as a signed number (0 when the bytes are missing).\<close>

definition header_int :: "8 word list \<Rightarrow> nat \<Rightarrow> int" where
  "header_int buf off = (case getInt32 buf off of Inr v \<Rightarrow> sint v | Inl e \<Rightarrow> 0)"

text \<open>The number of 32-bit words the loader still reads for a row of width \<open>w\<close> from column
  \<open>c\<close> on.\<close>

definition words_left :: "int \<Rightarrow> int \<Rightarrow> int" where
  "words_left w c = (if c < w then (w - c + 15) div 16 else 0)"

lemma load_cells_col: "snd (load_cells k w r data bits c) = (if c \<ge> w then c else min (c + int k) w)"
proof (induction k arbitrary: data bits c)
  case 0
  show ?case by (simp add: load_cells.simps)
next
  case (Suc k)
  show ?case
  proof (cases "c \<ge> w")
    case True
    then show ?thesis by (simp add: load_cells.simps)
  next
    case False
    then have "c < w" by simp
    from load_cells_step [OF this, of k r data bits] Suc.IH [where c = "c + 1"]
    show ?thesis using False by (simp add: add.assoc)
  qed
qed

lemma words_left_step: "c < w \<Longrightarrow> words_left w c = 1 + words_left w (min (c + 16) w)"
  by (auto simp: words_left_def min_def)

lemma getInt32_Inr: "getInt32 buf off = Inr v \<Longrightarrow> off + 4 \<le> length buf"
  by (simp add: getInt32_def split: if_splits)

lemma getInt32_Inl: "getInt32 buf off = Inl e \<Longrightarrow> e = RangeError"
  by (simp add: getInt32_def split: if_splits)

lemma load_row_offset:
  "load_row buf w r data offset c = Inr (data', offset') \<Longrightarrow>
   4 dvd offset \<Longrightarrow> offset \<le> length buf \<Longrightarrow> \<not> 4 dvd length buf \<Longrightarrow>
     4 dvd offset' \<and> offset' \<le> length buf \<and> int offset' = int offset + 4 * words_left w c"
proof (induction buf w r data offset c rule: load_row.induct)
  case (1 buf w r data offset c)
  show ?case
  proof (cases "c < w")
    case False
    with "1.prems" show ?thesis
      by (subst (asm) load_row.simps) (simp add: words_left_def)
  next
    case True
    from "1.prems" have ne: "offset \<noteq> length buf" by auto
    with "1.prems" have lt: "\<not> length buf \<le> offset" by simp
    with True "1.prems"(1) obtain bits where b: "getInt32 buf offset = Inr bits"
      by (subst (asm) load_row.simps) (auto split: sum.splits)
    obtain d1 c1 where lc: "load_cells 16 w r data bits c = (d1, c1)"
      by (cases "load_cells 16 w r data bits c")
    from True lt b lc "1.prems" have rec: "load_row buf w r d1 (offset + 4) c1 = Inr (data', offset')"
      by (subst (asm) load_row.simps) simp
    from load_cells_col [of 16 w r data bits c] lc True have c1: "c1 = min (c + 16) w"
      by simp
    from getInt32_Inr [OF b] have le: "offset + 4 \<le> length buf" .
    from "1.prems" have dv: "4 dvd offset + 4" by simp
    from "1.IH" [OF True lt b lc [symmetric] rec dv le "1.prems"(4)]
    have "4 dvd offset' \<and> offset' \<le> length buf
          \<and> int offset' = int (offset + 4) + 4 * words_left w c1" .
    with words_left_step [OF True] c1 show ?thesis by simp
  qed
qed

lemma load_row_error: "load_row buf w r data offset c = Inl e \<Longrightarrow> e = RangeError"
proof (induction buf w r data offset c rule: load_row.induct)
  case (1 buf w r data offset c)
  from "1.prems" have cw: "c < w" and lt: "\<not> length buf \<le> offset"
    by (subst (asm) load_row.simps; simp split: if_splits)+
  show ?case
  proof (cases "getInt32 buf offset")
    case (Inl e')
    with cw lt "1.prems" have "e = e'" by (subst (asm) load_row.simps) simp
    with getInt32_Inl [OF Inl] show ?thesis by simp
  next
    case (Inr bits)
    obtain d1 c1 where lc: "load_cells 16 w r data bits c = (d1, c1)"
      by (cases "load_cells 16 w r data bits c")
    from cw lt Inr lc "1.prems" have rec: "load_row buf w r d1 (offset + 4) c1 = Inl e"
      by (subst (asm) load_row.simps) simp
    from "1.IH" [OF cw lt Inr lc [symmetric] rec] show ?thesis .
  qed
qed

lemma load_rows_offset:
  "load_rows buf w rs data offset = Inr (data', offset') \<Longrightarrow>
   4 dvd offset \<Longrightarrow> offset \<le> length buf \<Longrightarrow> \<not> 4 dvd length buf \<Longrightarrow>
     offset' \<le> length buf
     \<and> int offset' = int offset + 4 * int (length rs) * words_left w 0"
proof (induction rs arbitrary: data offset)
  case Nil
  then show ?case by simp
next
  case (Cons r rs)
  from Cons.prems(1) obtain d1 o1 where r1: "load_row buf w r data offset 0 = Inr (d1, o1)"
    and r2: "load_rows buf w rs d1 o1 = Inr (data', offset')"
    by (auto split: sum.splits)
  from load_row_offset [OF r1 Cons.prems(2,3,4)]
  have a: "4 dvd o1" "o1 \<le> length buf" "int o1 = int offset + 4 * words_left w 0" by simp_all
  from Cons.IH [OF r2 a(1,2) Cons.prems(4)] a(3) show ?case
    by (simp add: algebra_simps)
qed

lemma load_rows_error: "load_rows buf w rs data offset = Inl e \<Longrightarrow> e = RangeError"
proof (induction rs arbitrary: data offset)
  case Nil
  then show ?case by simp
next
  case (Cons r rs)
  show ?case
  proof (cases "load_row buf w r data offset 0")
    case (Inl e')
    with Cons.prems have "e = e'" by simp
    with load_row_error [OF Inl] show ?thesis by simp
  next
    case (Inr p)
    obtain d1 o1 where p: "p = (d1, o1)" by (cases p)
    with Inr Cons.prems have "load_rows buf w rs d1 o1 = Inl e" by simp
    then show ?thesis by (rule Cons.IH)
  qed
qed

lemma Load_error: "Load m buf = Inl e \<Longrightarrow> e = RangeError"
  by (auto simp: Load_def Let_def split: sum.splits if_splits
        dest: getInt32_Inl load_rows_error)

lemma Load_short_header: "length buf < 12 \<Longrightarrow> Load m buf = Inl RangeError"
  by (auto simp: Load_def getInt32_def split: sum.splits)

lemma Load_negative_size:
  "12 \<le> length buf \<Longrightarrow> header_int buf 0 * header_int buf 4 < 0 \<Longrightarrow> Load m buf = Inl RangeError"
  by (auto simp: Load_def header_int_def Let_def getInt32_def split: sum.splits)

lemma Load_mid_word:
  assumes len: "12 \<le> length buf" and nd: "\<not> 4 dvd length buf"
    and w: "0 < header_int buf 0" and h: "0 < header_int buf 4"
    and short: "int (length buf) < 12 + 4 * header_int buf 4 * ((header_int buf 0 + 15) div 16)"
  shows "Load m buf = Inl RangeError"
proof (cases "Load m buf")
  case (Inl e)
  with Load_error [OF Inl] show ?thesis by simp
next
  case (Inr m')
  define wd where "wd = header_int buf 0"
  define ht where "ht = header_int buf 4"
  from Inr len obtain data off where
    lr: "load_rows buf wd (map int [0..<nat ht]) (replicate (nat (wd * ht)) 0) 12 = Inr (data, off)"
    by (auto simp: Load_def Let_def header_int_def wd_def ht_def getInt32_def
          split: sum.splits if_splits)
  from load_rows_offset [OF lr _ _ nd] len
  have "off \<le> length buf" "int off = 12 + 4 * int (nat ht) * words_left wd 0"
    by simp_all
  with w h have "12 + 4 * ht * ((wd + 15) div 16) \<le> int (length buf)"
    by (simp add: words_left_def wd_def ht_def)
  with short show ?thesis by (simp add: wd_def ht_def)
qed

text \<open>C8 as stated fails: a 1x1 blob whose body is missing altogether loads without an error
  (the guard \<^verbatim>\<open>if (offset >= buffer.byteLength) break\<close> leaves the unread cells 0), and so does a
  header whose width and height are both negative, since only their product is checked, by the
  typed-array constructor.\<close>

theorem Load_malformed_counterexample:
  "Load Maze_new [1, 0, 0, 0, 1, 0, 0, 0, 1, 0, 0, 0] = Inr maze_1x1
   \<and> Load Maze_new [255, 255, 255, 255, 255, 255, 255, 255, 1, 0, 0, 0]
       = Inr (maze_1x1\<lparr>width := - 1, height := - 1\<rparr>)"
  by (simp add: Load_eval maze_1x1_def Maze_new_def Let_def)

text \<open>C8 amended: a blob whose header is shorter than three 32-bit integers, or whose header
  gives a negative product width * height (one dimension negative, the other positive), or
  whose body, for positive dimensions, stops inside a 32-bit word before the words of all rows
  are there, makes the loader fail (with \<^verbatim>\<open>RangeError\<close>; the source has no error kind named
  InvalidInput) rather than produce a maze.\<close>

theorem Load_malformed_fails:
  "length buf < 12
   \<or> (12 \<le> length buf \<and> header_int buf 0 * header_int buf 4 < 0)
   \<or> (12 \<le> length buf \<and> \<not> 4 dvd length buf \<and> 0 < header_int buf 0 \<and> 0 < header_int buf 4
       \<and> int (length buf) < 12 + 4 * header_int buf 4 * ((header_int buf 0 + 15) div 16))
   \<Longrightarrow> Load m buf = Inl RangeError"
  using Load_short_header [of buf m] Load_negative_size [of buf m] Load_mid_word [of buf m]
  by blast

theorem Load_malformed_fails_witness:
  "Load Maze_new [1, 0, 0] = Inl RangeError
   \<and> Load Maze_new [255, 255, 255, 255, 1, 0, 0, 0, 1, 0, 0, 0] = Inl RangeError
   \<and> Load Maze_new [1, 0, 0, 0, 1, 0, 0, 0, 1, 0, 0, 0, 3, 0] = Inl RangeError"
proof -
  let ?b2 = "[255, 255, 255, 255, 1, 0, 0, 0, 1, 0, 0, 0] :: 8 word list"
  let ?b3 = "[1, 0, 0, 0, 1, 0, 0, 0, 1, 0, 0, 0, 3, 0] :: 8 word list"
  have l3: "length ?b3 = 14" by simp
  have h2: "12 \<le> length ?b2 \<and> header_int ?b2 0 * header_int ?b2 4 < 0"
    by (simp add: header_int_def getInt32_def)
  have h3: "12 \<le> length ?b3 \<and> \<not> 4 dvd length ?b3 \<and> 0 < header_int ?b3 0
            \<and> 0 < header_int ?b3 4
            \<and> int (length ?b3) < 12 + 4 * header_int ?b3 4 * ((header_int ?b3 0 + 15) div 16)"
    unfolding l3 by (simp add: header_int_def getInt32_def)
  show ?thesis
    using Load_malformed_fails [of "[1, 0, 0]" Maze_new] Load_malformed_fails [of ?b2 Maze_new]
      Load_malformed_fails [of ?b3 Maze_new] h2 h3
    by simp
qed

section \<open>The cell store of a loaded maze\<close>

text \<open>A maze as the loader leaves it: positive dimensions and both arrays of size
  width * height.\<close>

definition wf_maze :: "Maze \<Rightarrow> bool" where
  "wf_maze m \<longleftrightarrow> 0 < width m \<and> 0 < height m
     \<and> typed_length (poMazeData m) = Some (nat (width m * height m))
     \<and> typed_length (visitOrder m) = Some (nat (width m * height m))"

lemma wf_maze_arrays:
  assumes "wf_maze m"
  obtains cs vs where "poMazeData m = Int32Array cs" and "visitOrder m = Int32Array vs"
    and "int (length cs) = width m * height m" and "int (length vs) = width m * height m"
proof -
  from assms have p: "0 < width m * height m" by (simp add: wf_maze_def)
  from assms obtain cs where cs: "poMazeData m = Int32Array cs"
    by (cases "poMazeData m") (auto simp: wf_maze_def)
  from assms obtain vs where vs: "visitOrder m = Int32Array vs"
    by (cases "visitOrder m") (auto simp: wf_maze_def)
  from assms cs vs p have "int (length cs) = width m * height m"
    "int (length vs) = width m * height m"
    by (simp_all add: wf_maze_def)
  with cs vs that show ?thesis by blast
qed

lemma cellIndex_range:
  assumes "wf_maze m" and "in_grid m p"
  shows "0 \<le> cellIndex m p \<and> cellIndex m p < width m * height m"
proof -
  from assms have r: "0 \<le> row p" "row p + 1 \<le> height m" and c: "0 \<le> col p" "col p < width m"
    and w: "0 < width m"
    by (auto simp: in_grid_def wf_maze_def)
  have "0 \<le> row p * width m" using r w by simp
  then have lo: "0 \<le> cellIndex m p" using c by (simp add: cellIndex_def)
  have "(row p + 1) * width m \<le> height m * width m"
    using r w by (intro mult_right_mono) auto
  then have "row p * width m + col p < width m * height m"
    using c by (simp add: algebra_simps)
  with lo show ?thesis by (simp add: cellIndex_def)
qed

lemma cellIndex_inj:
  assumes "in_grid m p" and "in_grid m q" and "cellIndex m p = cellIndex m q"
  shows "p = q"
proof -
  from assms have w: "0 < width m" by (auto simp: in_grid_def)
  have d: "(row x * width m + col x) div width m = row x \<and> (row x * width m + col x) mod width m = col x"
    if "in_grid m x" for x
    using that w by (simp add: in_grid_def)
  from d [OF assms(1)] d [OF assms(2)] assms(3) have "row p = row q \<and> col p = col q"
    by (simp add: cellIndex_def)
  then show ?thesis by (simp add: Position.expand)
qed

lemma cellIndex_update [simp]:
  "cellIndex (m\<lparr>poMazeData := a\<rparr>) x = cellIndex m x"
  "cellIndex (m\<lparr>visitOrder := b\<rparr>) x = cellIndex m x"
  by (simp_all add: cellIndex_def)

lemma in_grid_update [simp]:
  "in_grid (m\<lparr>poMazeData := a\<rparr>) x = in_grid m x"
  "in_grid (m\<lparr>visitOrder := b\<rparr>) x = in_grid m x"
  by (simp_all add: in_grid_def)

lemma wf_setCell [simp]: "wf_maze (setCell m p v) = wf_maze m"
  by (simp add: wf_maze_def setCell_def)

lemma in_grid_setCell [simp]: "in_grid (setCell m p v) q = in_grid m q"
  by (simp add: in_grid_def setCell_def)

lemma dims_setCell [simp]:
  "width (setCell m p v) = width m" "height (setCell m p v) = height m"
  "visitOrder (setCell m p v) = visitOrder m"
  "thread_ownership (setCell m p v) = thread_ownership m"
  by (simp_all add: setCell_def)

lemma typed_get_set:
  "0 \<le> i \<Longrightarrow> i < int (length xs) \<Longrightarrow> 0 \<le> j \<Longrightarrow> j < int (length xs) \<Longrightarrow>
     typed_get (typed_set xs i v) j = (if j = i then Some v else typed_get xs j)"
  by (auto simp: typed_get_def typed_set_def)

lemma getCell_setCell:
  assumes "wf_maze m" and "in_grid m p"
  shows "getCell (setCell m p v) q = (if q = p then v else getCell m q)"
proof (cases "in_grid m q")
  case False
  with assms(2) show ?thesis by (auto simp: getCell_def)
next
  case True
  from assms(1) obtain cs where cs: "poMazeData m = Int32Array cs"
    and len: "int (length cs) = width m * height m"
    by (rule wf_maze_arrays)
  from cellIndex_range [OF assms] have ip: "0 \<le> cellIndex m p" "cellIndex m p < int (length cs)"
    by (simp_all add: len)
  from cellIndex_range [OF assms(1) True] have iq: "0 \<le> cellIndex m q" "cellIndex m q < int (length cs)"
    by (simp_all add: len)
  have e: "cellIndex m q = cellIndex m p \<longleftrightarrow> q = p"
    using cellIndex_inj [OF True assms(2)] by auto
  show ?thesis
    using True typed_get_set [OF ip iq, of v]
    by (simp add: getCell_def setCell_def cs e)
qed

lemma getVisitOrder_setCell [simp]: "getVisitOrder (setCell m p v) q = getVisitOrder m q"
  by (simp add: getVisitOrder_def cellIndex_def)

lemma wf_setVisitOrder [simp]: "wf_maze (setVisitOrder m p n) = wf_maze m"
  by (simp add: wf_maze_def setVisitOrder_def)

lemma in_grid_setVisitOrder [simp]: "in_grid (setVisitOrder m p n) q = in_grid m q"
  by (simp add: in_grid_def setVisitOrder_def)

lemma dims_setVisitOrder [simp]:
  "width (setVisitOrder m p n) = width m" "height (setVisitOrder m p n) = height m"
  "poMazeData (setVisitOrder m p n) = poMazeData m"
  by (simp_all add: setVisitOrder_def)

lemma getCell_setVisitOrder [simp]: "getCell (setVisitOrder m p n) q = getCell m q"
  by (simp add: getCell_def cellIndex_def)

lemma getVisitOrder_setVisitOrder:
  assumes "wf_maze m" and "in_grid m p" and "in_grid m q"
  shows "getVisitOrder (setVisitOrder m p n) q
           = (if q = p then Some (to_int32 n) else getVisitOrder m q)"
proof -
  from assms(1) obtain vs where vs: "visitOrder m = Int32Array vs"
    and len: "int (length vs) = width m * height m"
    by (rule wf_maze_arrays)
  from cellIndex_range [OF assms(1,2)] have ip: "0 \<le> cellIndex m p" "cellIndex m p < int (length vs)"
    by (simp_all add: len)
  from cellIndex_range [OF assms(1,3)] have iq: "0 \<le> cellIndex m q" "cellIndex m q < int (length vs)"
    by (simp_all add: len)
  have e: "cellIndex m q = cellIndex m p \<longleftrightarrow> q = p"
    using cellIndex_inj [OF assms(3,2)] by auto
  show ?thesis
    using typed_get_set [OF ip iq, of "to_int32 n"]
    by (simp add: getVisitOrder_def setVisitOrder_def vs e)
qed

section \<open>Branches\<close>

record Branches =
  directions :: "Direction list"
  count :: int
  index :: nat

text \<open>The constructor's loop over the four cardinal directions, slot \<open>idx\<close> next.\<close>

fun Branches_fill :: "Maze \<Rightarrow> Position \<Rightarrow> Direction list \<Rightarrow> nat \<Rightarrow> Branches \<Rightarrow> Branches" where
  "Branches_fill maze pos [] idx b = b"
| "Branches_fill maze pos (d # ds) idx b =
     Branches_fill maze pos ds (idx + 1)
       (if canMove maze pos d
        then b\<lparr>directions := (directions b)[idx := d], count := count b + 1\<rparr>
        else b\<lparr>directions := (directions b)[idx := Uninitialized]\<rparr>)"

text \<open>\<^verbatim>\<open>threadID & 3\<close> is the residue modulo 4, also for a negative id.\<close>

definition Branches_new :: "Maze \<Rightarrow> Position \<Rightarrow> int \<Rightarrow> Branches" where
  "Branches_new maze pos threadID =
     Branches_fill maze pos [North, East, South, West] 0
       \<lparr>directions = [Uninitialized, Uninitialized, Uninitialized, Uninitialized],
        count = 0, index = nat (threadID mod 4)\<rparr>"

fun remove_from :: "nat list \<Rightarrow> Branches \<Rightarrow> Direction \<Rightarrow> Branches" where
  "remove_from [] b d = b"
| "remove_from (i # is) b d =
     (if directions b ! i = d
      then b\<lparr>directions := (directions b)[i := Uninitialized], count := count b - 1\<rparr>
      else remove_from is b d)"

definition remove :: "Branches \<Rightarrow> Direction \<Rightarrow> Branches" where
  "remove b d = remove_from [0, 1, 2, 3] b d"

text \<open>The \<^verbatim>\<open>for (let i = 0; i < 4; i++)\<close> loop of \<^verbatim>\<open>getNextThreads\<close>, with the number of
  iterations left and \<^verbatim>\<open>fallbackIndex\<close> (\<open>None\<close> for -1); then the code after the loop.\<close>

fun getNextThreads_loop ::
  "nat \<Rightarrow> Branches \<Rightarrow> Position \<Rightarrow> Maze \<Rightarrow> nat option \<Rightarrow> Direction \<times> Branches \<times> Maze" where
  "getNextThreads_loop 0 b at maze fallbackIndex =
     (case fallbackIndex of
        Some f \<Rightarrow> (directions b ! f, b\<lparr>index := f\<rparr>, maze)
      | None \<Rightarrow> (Uninitialized, b, maze))"
| "getNextThreads_loop (Suc k) b at maze fallbackIndex =
     (let b = b\<lparr>index := (index b + 1) mod 4\<rparr>;
          d = directions b ! index b
      in if d = Uninitialized then getNextThreads_loop k b at maze fallbackIndex
         else if checkBranchDead maze at d then
           (let b = b\<lparr>directions := (directions b)[index b := Uninitialized],
                      count := count b - 1\<rparr>
            in if count b = 0 then (Uninitialized, b, maze)
               else getNextThreads_loop k b at maze fallbackIndex)
         else
           (let fallbackIndex = (if fallbackIndex = None then Some (index b) else fallbackIndex)
            in if checkBranchOccupied maze at d
               then getNextThreads_loop k b at maze fallbackIndex
               else (d, b, setBranchOccupied maze at d)))"

definition getNextThreads :: "Branches \<Rightarrow> Position \<Rightarrow> Maze \<Rightarrow> Direction \<times> Branches \<times> Maze" where
  "getNextThreads b at maze =
     (if count b = 0 then (Uninitialized, b, maze) else getNextThreads_loop 4 b at maze None)"

definition popCurrThreads :: "Branches \<Rightarrow> Position \<Rightarrow> Maze \<Rightarrow> Direction \<times> Branches \<times> Maze" where
  "popCurrThreads b at maze =
     (let d = directions b ! index b
      in if d \<noteq> Uninitialized
         then (d, b\<lparr>directions := (directions b)[index b := Uninitialized], count := count b - 1\<rparr>,
               setBranchDeadFromOrigin maze at d)
         else (d, b, maze))"

fun getNext_loop :: "nat \<Rightarrow> Branches \<Rightarrow> Direction \<times> Branches" where
  "getNext_loop 0 b = (Uninitialized, b)"
| "getNext_loop (Suc k) b =
     (let b = b\<lparr>index := (index b + 1) mod 4\<rparr>
      in if directions b ! index b \<noteq> Uninitialized then (directions b ! index b, b)
         else getNext_loop k b)"

definition getNext :: "Branches \<Rightarrow> Direction \<times> Branches" where
  "getNext b = (if count b = 0 then (Uninitialized, b) else getNext_loop 4 b)"

definition size_b :: "Branches \<Rightarrow> int" where
  "size_b b = count b"


subsection \<open>What \<^verbatim>\<open>getNextThreads\<close> computes\<close>

text \<open>The slots that \<open>k\<close> advances of the cursor visit, in order.\<close>

definition scan_order :: "nat \<Rightarrow> nat \<Rightarrow> nat list" where
  "scan_order cursor k = map (\<lambda>i. (cursor + i) mod 4) [1..<Suc k]"

definition clear_slots :: "nat list \<Rightarrow> Direction list \<Rightarrow> Direction list" where
  "clear_slots ss ds = fold (\<lambda>s ds. ds[s := Uninitialized]) ss ds"

text \<open>The DEAD and the OCCUPIED bit of a direction in the state word of a cell.\<close>

fun DEAD_of :: "Direction \<Rightarrow> cell" where
  "DEAD_of North = DEAD_N"
| "DEAD_of East = DEAD_E"
| "DEAD_of South = DEAD_S"
| "DEAD_of West = DEAD_W"
| "DEAD_of Uninitialized = 0"

fun OCCUPIED_of :: "Direction \<Rightarrow> cell" where
  "OCCUPIED_of North = OCCUPIED_N"
| "OCCUPIED_of East = OCCUPIED_E"
| "OCCUPIED_of South = OCCUPIED_S"
| "OCCUPIED_of West = OCCUPIED_W"
| "OCCUPIED_of Uninitialized = 0"

text \<open>The scan ends at the slot \<open>s\<close> of the scanned slots \<open>scanned\<close>, for the count \<open>c\<close> at
  its start: either \<open>s\<close> is dead and clearing it takes the count to 0, that is, \<open>c\<close> is the
  number of dead slots scanned up to and including \<open>s\<close>; or \<open>s\<close> is neither dead nor
  occupied.\<close>

definition ends_at ::
  "(nat \<Rightarrow> bool) \<Rightarrow> (nat \<Rightarrow> bool) \<Rightarrow> int \<Rightarrow> nat list \<Rightarrow> nat \<Rightarrow> bool" where
  "ends_at dead occ c scanned s \<longleftrightarrow>
     (if dead s then c = int (length (filter dead (takeWhile (\<lambda>x. x \<noteq> s) scanned))) + 1
      else \<not> occ s)"

text \<open>The description of \<^verbatim>\<open>getNextThreads\<close> in the words of the specification, for a
  \<^verbatim>\<open>Branches\<close> object \<open>b\<close> and the state word \<open>w\<close> of the cell \<open>at\<close>, over the slots of the
  four cursor advances that hold a direction. The dead slots scanned are cleared and counted
  off, and when the count reaches 0 \<^verbatim>\<open>Uninitialized\<close> is returned. The first non-dead slot
  whose OCCUPIED bit is clear is claimed (the bit is set in the state word) and its direction
  returned, the cursor on it. Failing both, the first non-dead slot (the fallback) is
  returned, the cursor on it, without a claim; failing that too, \<^verbatim>\<open>Uninitialized\<close> is
  returned. The description leaves the cursor open where \<^verbatim>\<open>Uninitialized\<close> is returned. The
  result is the direction, the new slots, the new count, the cursor where it is described,
  and the new state word of \<open>at\<close>.\<close>

definition next_mt_spec ::
  "Branches \<Rightarrow> cell \<Rightarrow> Direction \<times> Direction list \<times> int \<times> nat option \<times> cell" where
  "next_mt_spec b w =
     (let ds = directions b;
          is_dead = (\<lambda>s. w AND DEAD_of (ds ! s) \<noteq> 0);
          is_occupied = (\<lambda>s. w AND OCCUPIED_of (ds ! s) \<noteq> 0);
          scanned = filter (\<lambda>s. ds ! s \<noteq> Uninitialized) (scan_order (index b) 4);
          ends = ends_at is_dead is_occupied (count b) scanned;
          cleared = filter is_dead (takeWhile (\<lambda>s. \<not> ends s) scanned)
      in case dropWhile (\<lambda>s. \<not> ends s) scanned of
           s # _ \<Rightarrow>
             if is_dead s
             then (Uninitialized, clear_slots (cleared @ [s]) ds,
                   count b - int (length (cleared @ [s])), None, w)
             else (ds ! s, clear_slots cleared ds, count b - int (length cleared), Some s,
                   w OR OCCUPIED_of (ds ! s))
         | [] \<Rightarrow>
             (case filter (\<lambda>s. \<not> is_dead s) scanned of
                f # _ \<Rightarrow>
                  (ds ! f, clear_slots cleared ds, count b - int (length cleared), Some f, w)
              | [] \<Rightarrow>
                  (Uninitialized, clear_slots cleared ds, count b - int (length cleared), None,
                   w)))"

text \<open>A result of the code, for the cell \<open>at\<close> of the maze \<open>maze\<close>, agrees with a result of the
  description: the same direction, slots and count, the cursor where the description gives
  one, the described state word at \<open>at\<close>, and nothing else of the maze changed.\<close>

definition agrees ::
  "Position \<Rightarrow> Maze \<Rightarrow> Direction \<times> Branches \<times> Maze
     \<Rightarrow> Direction \<times> Direction list \<times> int \<times> nat option \<times> cell \<Rightarrow> bool" where
  "agrees at maze r s =
     (case r of (d, b', maze') \<Rightarrow>
      case s of (d2, ds, c, cursor, w') \<Rightarrow>
        d = d2 \<and> directions b' = ds \<and> count b' = c
        \<and> (case cursor of Some i \<Rightarrow> index b' = i | None \<Rightarrow> True)
        \<and> (\<forall>q. getCell maze' q = (if q = at then w' else getCell maze q))
        \<and> width maze' = width maze \<and> height maze' = height maze
        \<and> visitOrder maze' = visitOrder maze
        \<and> thread_ownership maze' = thread_ownership maze)"

text \<open>The same description over abstract slot predicates, an arbitrary scan order and a
  fallback found earlier; used to follow the loop. The result is the slot returned, the slots
  cleared and whether the slot is claimed.\<close>

definition scan_result ::
  "(nat \<Rightarrow> bool) \<Rightarrow> (nat \<Rightarrow> bool) \<Rightarrow> int \<Rightarrow> nat list \<Rightarrow> nat option
     \<Rightarrow> nat option \<times> nat list \<times> bool" where
  "scan_result dead occ c scanned fb =
     (let ends = ends_at dead occ c scanned;
          cleared = filter dead (takeWhile (\<lambda>s. \<not> ends s) scanned)
      in case dropWhile (\<lambda>s. \<not> ends s) scanned of
           s # _ \<Rightarrow> if dead s then (None, cleared @ [s], False) else (Some s, cleared, True)
         | [] \<Rightarrow>
             (case (case fb of Some f \<Rightarrow> Some f
                    | None \<Rightarrow> (case filter (\<lambda>s. \<not> dead s) scanned of
                                 f # _ \<Rightarrow> Some f | [] \<Rightarrow> None)) of
                Some f \<Rightarrow> (Some f, cleared, False)
              | None \<Rightarrow> (None, cleared, False)))"

definition core_spec ::
  "(nat \<Rightarrow> bool) \<Rightarrow> (nat \<Rightarrow> bool) \<Rightarrow> (nat \<Rightarrow> bool) \<Rightarrow> int \<Rightarrow> nat list \<Rightarrow> nat option
     \<Rightarrow> nat option \<times> nat list \<times> bool" where
  "core_spec live dead occ c order' fb = scan_result dead occ c (filter live order') fb"

definition mk_result ::
  "Position \<Rightarrow> Maze \<Rightarrow> Direction list \<Rightarrow> int \<Rightarrow> nat option \<times> nat list \<times> bool
     \<Rightarrow> Direction \<times> Direction list \<times> int \<times> nat option \<times> Maze" where
  "mk_result at maze ds c r =
     (case r of (slot, cleared, claim) \<Rightarrow>
        (case slot of Some s \<Rightarrow> ds ! s | None \<Rightarrow> Uninitialized,
         clear_slots cleared ds, c - int (length cleared), slot,
         case slot of Some s \<Rightarrow> if claim then setBranchOccupied maze at (ds ! s) else maze
         | None \<Rightarrow> maze))"

text \<open>The loop returns what \<open>mk_result\<close> gives.\<close>

definition loop_agrees ::
  "Direction \<times> Branches \<times> Maze \<Rightarrow> Direction \<times> Direction list \<times> int \<times> nat option \<times> Maze \<Rightarrow> bool" where
  "loop_agrees r s =
     (case r of (d, b', maze') \<Rightarrow>
      case s of (d2, ds, c, cursor, maze2) \<Rightarrow>
        d = d2 \<and> directions b' = ds \<and> count b' = c \<and> maze' = maze2
        \<and> (case cursor of Some i \<Rightarrow> index b' = i | None \<Rightarrow> True))"

lemma filter_Cons_mem: "filter P xs = y # ys \<Longrightarrow> y \<in> set xs \<and> P y"
  by (induction xs) (auto split: if_splits)

lemma dropWhile_Cons_mem: "dropWhile P xs = y # ys \<Longrightarrow> y \<in> set xs \<and> \<not> P y"
  by (induction xs) (auto split: if_splits)

lemma ends_at_Cons:
  "x \<noteq> s \<Longrightarrow> ends_at dead occ c (s # xs) x = ends_at dead occ (if dead s then c - 1 else c) xs x"
  by (auto simp: ends_at_def)

lemma ends_at_hd: "ends_at dead occ c (s # xs) s = (if dead s then c = 1 else \<not> occ s)"
  by (simp add: ends_at_def)

lemma ends_at_cong:
  assumes "\<And>x. x \<in> set xs \<Longrightarrow> dead x = dead' x \<and> occ x = occ' x" and "s \<in> set xs"
  shows "ends_at dead occ c xs s = ends_at dead' occ' c xs s"
proof -
  have "filter dead (takeWhile (\<lambda>x. x \<noteq> s) xs) = filter dead' (takeWhile (\<lambda>x. x \<noteq> s) xs)"
    by (rule filter_cong) (auto simp: assms(1) dest!: set_takeWhileD)
  with assms show ?thesis by (simp add: ends_at_def)
qed

lemma ends_at_tail:
  assumes "s \<notin> set xs"
  shows "dropWhile (\<lambda>x. \<not> ends_at dead occ c (s # xs) x) xs
           = dropWhile (\<lambda>x. \<not> ends_at dead occ (if dead s then c - 1 else c) xs x) xs"
    and "takeWhile (\<lambda>x. \<not> ends_at dead occ c (s # xs) x) xs
           = takeWhile (\<lambda>x. \<not> ends_at dead occ (if dead s then c - 1 else c) xs x) xs"
proof -
  have e: "ends_at dead occ c (s # xs) x = ends_at dead occ (if dead s then c - 1 else c) xs x"
    if "x \<in> set xs" for x
    using that assms by (intro ends_at_Cons) auto
  show "dropWhile (\<lambda>x. \<not> ends_at dead occ c (s # xs) x) xs
           = dropWhile (\<lambda>x. \<not> ends_at dead occ (if dead s then c - 1 else c) xs x) xs"
    by (rule dropWhile_cong) (simp_all add: e)
  show "takeWhile (\<lambda>x. \<not> ends_at dead occ c (s # xs) x) xs
           = takeWhile (\<lambda>x. \<not> ends_at dead occ (if dead s then c - 1 else c) xs x) xs"
    by (rule takeWhile_cong) (simp_all add: e)
qed

lemma scan_result_free:
  "\<not> dead s \<Longrightarrow> \<not> occ s \<Longrightarrow> scan_result dead occ c (s # sc) fb = (Some s, [], True)"
  by (simp add: scan_result_def ends_at_hd)

lemma scan_result_halt:
  "dead s \<Longrightarrow> scan_result dead occ 1 (s # sc) fb = (None, [s], False)"
  by (simp add: scan_result_def ends_at_hd)

lemma scan_result_occupied:
  assumes "\<not> dead s" and "occ s" and "s \<notin> set sc"
  shows "scan_result dead occ c (s # sc) fb
       = scan_result dead occ c sc (if fb = None then Some s else fb)"
proof -
  let ?D = "\<lambda>x. \<not> ends_at dead occ c sc x"
  have h: "\<not> ends_at dead occ c (s # sc) s" using assms by (simp add: ends_at_hd)
  have d: "dropWhile (\<lambda>x. \<not> ends_at dead occ c (s # sc) x) (s # sc) = dropWhile ?D sc"
    using h ends_at_tail(1) [OF assms(3), of dead occ c] assms(1) by simp
  have t: "takeWhile (\<lambda>x. \<not> ends_at dead occ c (s # sc) x) (s # sc) = s # takeWhile ?D sc"
    using h ends_at_tail(2) [OF assms(3), of dead occ c] assms(1) by simp
  have f: "filter (\<lambda>x. \<not> dead x) (s # sc) = s # filter (\<lambda>x. \<not> dead x) sc"
    using assms(1) by simp
  have g: "filter dead (s # xs) = filter dead xs" for xs using assms(1) by simp
  show ?thesis
    unfolding scan_result_def Let_def d t f g
    by (cases "dropWhile ?D sc"; cases fb)
      (simp_all del: dropWhile_eq_Nil_conv filter_empty_conv)
qed

lemma scan_result_dead:
  assumes "dead s" and "c \<noteq> 1" and "s \<notin> set sc"
  shows "scan_result dead occ c (s # sc) fb
       = (case scan_result dead occ (c - 1) sc fb of (r, cl, oc) \<Rightarrow> (r, s # cl, oc))"
proof -
  let ?D = "\<lambda>x. \<not> ends_at dead occ (c - 1) sc x"
  have h: "\<not> ends_at dead occ c (s # sc) s" using assms by (simp add: ends_at_hd)
  have d: "dropWhile (\<lambda>x. \<not> ends_at dead occ c (s # sc) x) (s # sc) = dropWhile ?D sc"
    using h ends_at_tail(1) [OF assms(3), of dead occ c] assms(1) by simp
  have t: "takeWhile (\<lambda>x. \<not> ends_at dead occ c (s # sc) x) (s # sc) = s # takeWhile ?D sc"
    using h ends_at_tail(2) [OF assms(3), of dead occ c] assms(1) by simp
  have f: "filter (\<lambda>x. \<not> dead x) (s # sc) = filter (\<lambda>x. \<not> dead x) sc"
    using assms(1) by simp
  have g: "filter dead (s # xs) = s # filter dead xs" for xs using assms(1) by simp
  show ?thesis
    unfolding scan_result_def Let_def d t f g
    by (cases "dropWhile ?D sc"; cases fb; cases "filter (\<lambda>x. \<not> dead x) sc")
      (simp_all del: dropWhile_eq_Nil_conv filter_empty_conv)
qed

lemma scan_result_cong:
  assumes "\<And>x. x \<in> set sc \<Longrightarrow> dead x = dead' x \<and> occ x = occ' x"
  shows "scan_result dead occ c sc fb = scan_result dead' occ' c sc fb"
proof -
  have e: "ends_at dead occ c sc x = ends_at dead' occ' c sc x" if "x \<in> set sc" for x
    by (rule ends_at_cong) (use that assms in auto)
  have b: "dropWhile (\<lambda>s. \<not> ends_at dead occ c sc s) sc
         = dropWhile (\<lambda>s. \<not> ends_at dead' occ' c sc s) sc"
    by (rule dropWhile_cong) (simp_all add: e)
  have t: "takeWhile (\<lambda>s. \<not> ends_at dead occ c sc s) sc
         = takeWhile (\<lambda>s. \<not> ends_at dead' occ' c sc s) sc"
    by (rule takeWhile_cong) (simp_all add: e)
  have d: "filter dead (takeWhile P sc) = filter dead' (takeWhile P sc)" for P
    by (rule filter_cong) (auto simp: assms dest!: set_takeWhileD)
  have f: "filter (\<lambda>s. \<not> dead s) sc = filter (\<lambda>s. \<not> dead' s) sc"
    by (rule filter_cong) (auto simp: assms)
  have g: "(case dropWhile P sc of [] \<Rightarrow> x | s # zs \<Rightarrow> if dead s then y s else z s)
         = (case dropWhile P sc of [] \<Rightarrow> x | s # zs \<Rightarrow> if dead' s then y s else z s)"
    for P x and y z :: "nat \<Rightarrow> nat option \<times> nat list \<times> bool"
    using assms by (auto split: list.splits dest!: dropWhile_Cons_mem)
  show ?thesis
    unfolding scan_result_def Let_def b t d f g ..
qed

lemma scan_result_slot:
  "scan_result dead occ c sc fb = (Some r, cl, oc) \<Longrightarrow> r \<in> set sc \<or> fb = Some r"
  by (auto simp: scan_result_def Let_def split: list.splits option.splits if_splits
        dest!: filter_Cons_mem dropWhile_Cons_mem)

lemma core_spec_skip:
  "\<not> live s \<Longrightarrow> core_spec live dead occ c (s # order') fb = core_spec live dead occ c order' fb"
  by (simp add: core_spec_def)

lemma core_spec_free:
  "live s \<Longrightarrow> \<not> dead s \<Longrightarrow> \<not> occ s \<Longrightarrow>
     core_spec live dead occ c (s # order') fb = (Some s, [], True)"
  by (simp add: core_spec_def scan_result_free)

lemma core_spec_halt:
  "live s \<Longrightarrow> dead s \<Longrightarrow> core_spec live dead occ 1 (s # order') fb = (None, [s], False)"
  by (simp add: core_spec_def scan_result_halt)

lemma core_spec_occupied:
  "live s \<Longrightarrow> \<not> dead s \<Longrightarrow> occ s \<Longrightarrow> s \<notin> set order' \<Longrightarrow>
     core_spec live dead occ c (s # order') fb
       = core_spec live dead occ c order' (if fb = None then Some s else fb)"
  by (simp add: core_spec_def scan_result_occupied)

lemma core_spec_dead:
  "live s \<Longrightarrow> dead s \<Longrightarrow> c \<noteq> 1 \<Longrightarrow> s \<notin> set order' \<Longrightarrow>
     core_spec live dead occ c (s # order') fb
       = (case core_spec live dead occ (c - 1) order' fb of (r, cl, oc) \<Rightarrow> (r, s # cl, oc))"
  by (simp add: core_spec_def scan_result_dead)

lemma core_spec_cong:
  assumes "\<And>x. x \<in> set order' \<Longrightarrow> live x = live' x \<and> dead x = dead' x \<and> occ x = occ' x"
  shows "core_spec live dead occ c order' fb = core_spec live' dead' occ' c order' fb"
proof -
  have a: "filter live order' = filter live' order'"
    by (rule filter_cong) (auto simp: assms)
  have "scan_result dead occ c (filter live' order') fb
      = scan_result dead' occ' c (filter live' order') fb"
    by (rule scan_result_cong) (auto simp: assms)
  then show ?thesis by (simp add: core_spec_def a)
qed

lemma core_spec_slot:
  "core_spec live dead occ c order' fb = (Some r, cl, oc) \<Longrightarrow> r \<in> set order' \<or> fb = Some r"
  by (auto simp: core_spec_def dest: scan_result_slot)

lemma clear_slots_Cons: "clear_slots (s # ss) ds = clear_slots ss (ds[s := Uninitialized])"
  by (simp add: clear_slots_def)

lemma scan_order_Suc:
  "scan_order c (Suc k) = ((c + 1) mod 4) # scan_order ((c + 1) mod 4) k"
proof -
  have "[1..<Suc (Suc k)] = 1 # map Suc [1..<Suc k]"
    by (metis One_nat_def map_Suc_upt upt_conv_Cons zero_less_Suc Suc_less_eq)
  then show ?thesis
    by (simp add: scan_order_def mod_simps)
qed

lemma scan_order_0: "scan_order c 0 = []"
  by (simp add: scan_order_def)

lemma scan_order_notin: "s < 4 \<Longrightarrow> k \<le> 3 \<Longrightarrow> s \<notin> set (scan_order s k)"
proof
  assume s: "s < 4" and k: "k \<le> 3" and "s \<in> set (scan_order s k)"
  then obtain i where i: "1 \<le> i" "i \<le> k" and e: "(s + i) mod 4 = s"
    by (auto simp: scan_order_def)
  from s i k e show False by presburger
qed

lemma mk_result_dead:
  "r \<noteq> Some s \<Longrightarrow>
     mk_result at maze ds c (r, s # cl, oc)
       = mk_result at maze (ds[s := Uninitialized]) (c - 1) (r, cl, oc)"
proof (cases r)
  case None
  then show ?thesis by (simp add: mk_result_def clear_slots_Cons)
next
  case (Some x)
  assume "r \<noteq> Some s"
  with Some have "s \<noteq> x" by auto
  then have "ds[s := Uninitialized] ! x = ds ! x" by simp
  with Some show ?thesis by (simp add: mk_result_def clear_slots_Cons)
qed

declare getNextThreads_loop.simps [simp del]

lemma getNextThreads_loop_agrees:
  assumes "length (directions b) = 4" and "k \<le> 4" and "index b < 4"
    and "\<And>f. fb = Some f \<Longrightarrow> f \<notin> set (scan_order (index b) k)"
  shows "loop_agrees (getNextThreads_loop k b at maze fb)
           (mk_result at maze (directions b) (count b)
              (core_spec (\<lambda>s. directions b ! s \<noteq> Uninitialized)
                 (\<lambda>s. checkBranchDead maze at (directions b ! s))
                 (\<lambda>s. checkBranchOccupied maze at (directions b ! s))
                 (count b) (scan_order (index b) k) fb))"
  using assms
proof (induction k arbitrary: b fb)
  case 0
  show ?case
    by (simp add: getNextThreads_loop.simps scan_order_0 core_spec_def scan_result_def
          mk_result_def loop_agrees_def clear_slots_def split: option.splits)
next
  case (Suc k)
  define s where "s = (index b + 1) mod 4"
  define ds where "ds = directions b"
  define ord where "ord = scan_order s k"
  define b1 where "b1 = b\<lparr>index := s\<rparr>"
  have s4: "s < 4" by (simp add: s_def)
  have k3: "k \<le> 3" using Suc.prems(2) by simp
  have so: "scan_order (index b) (Suc k) = s # ord"
    by (simp add: scan_order_Suc s_def ord_def)
  have sn: "s \<notin> set ord" unfolding ord_def using s4 k3 by (rule scan_order_notin)
  have len: "length ds = 4" using Suc.prems(1) by (simp add: ds_def)
  have b1: "directions b1 = ds" "count b1 = count b" "index b1 = s"
    by (simp_all add: b1_def ds_def)
  note fbn = Suc.prems(4) [unfolded so]
  let ?live = "\<lambda>x. ds ! x \<noteq> Uninitialized"
  let ?dead = "\<lambda>x. checkBranchDead maze at (ds ! x)"
  let ?occ = "\<lambda>x. checkBranchOccupied maze at (ds ! x)"
  show ?case
  proof (cases "ds ! s = Uninitialized")
    case True
    have step: "getNextThreads_loop (Suc k) b at maze fb = getNextThreads_loop k b1 at maze fb"
      using True by (simp add: getNextThreads_loop.simps Let_def b1_def s_def ds_def)
    have ih: "loop_agrees (getNextThreads_loop k b1 at maze fb)
                (mk_result at maze ds (count b) (core_spec ?live ?dead ?occ (count b) ord fb))"
      using Suc.IH [of b1 fb] len k3 s4 fbn
      by (simp add: b1 ord_def)
    show ?thesis
      using ih True by (simp add: step so core_spec_skip flip: ds_def)
  next
    case live: False
    show ?thesis
    proof (cases "checkBranchDead maze at (ds ! s)")
      case dead: True
      define b2 where "b2 = b1\<lparr>directions := ds[s := Uninitialized], count := count b - 1\<rparr>"
      have b2: "directions b2 = ds[s := Uninitialized]" "count b2 = count b - 1" "index b2 = s"
        by (simp_all add: b2_def b1)
      show ?thesis
      proof (cases "count b - 1 = 0")
        case True
        have step: "getNextThreads_loop (Suc k) b at maze fb = (Uninitialized, b2, maze)"
          using live dead True
          by (simp add: getNextThreads_loop.simps Let_def b2_def b1_def s_def ds_def)
        from True have c1: "count b = 1" by simp
        have spec: "core_spec ?live ?dead ?occ 1 (s # ord) fb = (None, [s], False)"
          using live dead by (simp add: core_spec_halt)
        show ?thesis
          by (simp add: c1 step so spec mk_result_def loop_agrees_def b2 clear_slots_def
                flip: ds_def)
      next
        case False
        have nth: "ds[s := Uninitialized] ! x = ds ! x" if "x \<in> set ord" for x
          using that sn by (metis nth_list_update_neq)
        have cong: "core_spec (\<lambda>x. ds[s := Uninitialized] ! x \<noteq> Uninitialized)
                      (\<lambda>x. checkBranchDead maze at (ds[s := Uninitialized] ! x))
                      (\<lambda>x. checkBranchOccupied maze at (ds[s := Uninitialized] ! x))
                      (count b - 1) ord fb
                    = core_spec ?live ?dead ?occ (count b - 1) ord fb"
          by (rule core_spec_cong) (simp add: nth)
        obtain r cl oc where cs: "core_spec ?live ?dead ?occ (count b - 1) ord fb = (r, cl, oc)"
          by (cases "core_spec ?live ?dead ?occ (count b - 1) ord fb")
        have c1: "count b \<noteq> 1" using False by simp
        have spec: "core_spec ?live ?dead ?occ (count b) (s # ord) fb = (r, s # cl, oc)"
          using live dead sn cs c1 by (simp add: core_spec_dead)
        have step: "getNextThreads_loop (Suc k) b at maze fb = getNextThreads_loop k b2 at maze fb"
          using live dead False
          by (simp add: getNextThreads_loop.simps Let_def b2_def b1_def s_def ds_def)
        have ih: "loop_agrees (getNextThreads_loop k b2 at maze fb)
                    (mk_result at maze (ds[s := Uninitialized]) (count b - 1) (r, cl, oc))"
        proof -
          have p4: "fb = Some f \<Longrightarrow> f \<notin> set ord" for f using fbn [of f] by simp
          show ?thesis
            using Suc.IH [of b2 fb] len k3 s4 p4
            by (simp add: b2 cong cs flip: ord_def)
        qed
        have "r \<noteq> Some s"
        proof
          assume "r = Some s"
          with core_spec_slot [OF cs [unfolded this]] sn have "fb = Some s" by simp
          with fbn [of s] show False by simp
        qed
        from mk_result_dead [OF this] ih show ?thesis
          by (simp add: step so spec flip: ds_def)
      qed
    next
      case nd: False
      show ?thesis
      proof (cases "checkBranchOccupied maze at (ds ! s)")
        case occ: True
        define fb' where "fb' = (if fb = None then Some s else fb)"
        have step: "getNextThreads_loop (Suc k) b at maze fb = getNextThreads_loop k b1 at maze fb'"
          using live nd occ by (simp add: getNextThreads_loop.simps Let_def b1_def s_def ds_def fb'_def)
        have ih: "loop_agrees (getNextThreads_loop k b1 at maze fb')
                    (mk_result at maze ds (count b) (core_spec ?live ?dead ?occ (count b) ord fb'))"
          using Suc.IH [of b1 fb'] len k3 s4 live sn fbn
          by (auto simp: b1 fb'_def simp flip: ord_def)
        show ?thesis
          using ih live nd occ sn
          by (simp add: step so core_spec_occupied fb'_def flip: ds_def)
      next
        case free: False
        have step: "getNextThreads_loop (Suc k) b at maze fb
                      = (ds ! s, b1, setBranchOccupied maze at (ds ! s))"
          using live nd free by (simp add: getNextThreads_loop.simps Let_def b1_def s_def ds_def)
        show ?thesis
          using live nd free
          by (simp add: step so core_spec_free mk_result_def loop_agrees_def b1 clear_slots_def
                flip: ds_def)
      qed
    qed
  qed
qed


text \<open>The description in terms of \<open>scan_result\<close>.\<close>

definition word_result ::
  "cell \<Rightarrow> Direction list \<Rightarrow> int \<Rightarrow> nat option \<times> nat list \<times> bool
     \<Rightarrow> Direction \<times> Direction list \<times> int \<times> nat option \<times> cell" where
  "word_result w ds c r =
     (case r of (slot, cleared, claim) \<Rightarrow>
        (case slot of Some s \<Rightarrow> ds ! s | None \<Rightarrow> Uninitialized,
         clear_slots cleared ds, c - int (length cleared), slot,
         case slot of Some s \<Rightarrow> if claim then w OR OCCUPIED_of (ds ! s) else w
         | None \<Rightarrow> w))"

lemma next_mt_spec_core:
  "next_mt_spec b w =
     word_result w (directions b) (count b)
       (core_spec (\<lambda>s. directions b ! s \<noteq> Uninitialized)
          (\<lambda>s. w AND DEAD_of (directions b ! s) \<noteq> 0)
          (\<lambda>s. w AND OCCUPIED_of (directions b ! s) \<noteq> 0)
          (count b) (scan_order (index b) 4) None)"
  by (simp add: next_mt_spec_def core_spec_def scan_result_def word_result_def Let_def
        split: list.split del: dropWhile_eq_Nil_conv filter_empty_conv)

lemma dead_bit_DEAD_of: "dead_bit d = DEAD_of d"
  by (cases d) (simp_all add: dead_bit_def)

lemma occupied_bit_OCCUPIED_of: "occupied_bit d = OCCUPIED_of d"
  by (cases d) (simp_all add: occupied_bit_def)

lemma checkBranchDead_word: "checkBranchDead maze at d \<longleftrightarrow> getCell maze at AND DEAD_of d \<noteq> 0"
  by (simp add: checkBranchDead_def hasFlag_def dead_bit_DEAD_of)

lemma checkBranchOccupied_word:
  "checkBranchOccupied maze at d \<longleftrightarrow> getCell maze at AND OCCUPIED_of d \<noteq> 0"
  by (simp add: checkBranchOccupied_def hasFlag_def occupied_bit_OCCUPIED_of)

lemma setBranchOccupied_setCell:
  "setBranchOccupied maze at d = setCell maze at (getCell maze at OR OCCUPIED_of d)"
  by (simp add: setBranchOccupied_def setFlag_def occupied_bit_OCCUPIED_of)

lemma loop_agrees_word:
  assumes "loop_agrees r (mk_result at maze ds c res)" and "wf_maze maze" and "in_grid maze at"
  shows "agrees at maze r (word_result (getCell maze at) ds c res)"
proof -
  obtain d b' maze' where r: "r = (d, b', maze')" by (cases r)
  obtain slot cleared claim where res: "res = (slot, cleared, claim)" by (cases res)
  show ?thesis
  proof (cases "\<exists>s. slot = Some s \<and> claim")
    case True
    then obtain s where s: "slot = Some s" "claim" by blast
    from assms(1) have m: "maze' = setCell maze at (getCell maze at OR OCCUPIED_of (ds ! s))"
      by (simp add: r res s loop_agrees_def mk_result_def setBranchOccupied_setCell)
    have g: "getCell maze' q = (if q = at then getCell maze at OR OCCUPIED_of (ds ! s)
                                 else getCell maze q)" for q
      unfolding m by (rule getCell_setCell [OF assms(2,3)])
    have o: "width maze' = width maze" "height maze' = height maze"
      "visitOrder maze' = visitOrder maze" "thread_ownership maze' = thread_ownership maze"
      unfolding m by simp_all
    from assms(1) have f: "d = ds ! s" "directions b' = clear_slots cleared ds"
      "count b' = c - int (length cleared)" "index b' = s"
      by (simp_all add: r res s loop_agrees_def mk_result_def)
    show ?thesis
      by (simp add: r res s agrees_def word_result_def g o f)
  next
    case False
    with assms(1) have m: "maze' = maze"
      by (cases slot) (auto simp: r res loop_agrees_def mk_result_def)
    show ?thesis
      using assms(1) False
      by (cases slot) (auto simp: r res m loop_agrees_def mk_result_def agrees_def
            word_result_def)
  qed
qed

text \<open>Every \<^verbatim>\<open>Branches\<close> object has four slots and a cursor from 0 to 3: the constructor
  builds it so and the methods keep it so.\<close>

definition four_slots :: "Branches \<Rightarrow> bool" where
  "four_slots b \<longleftrightarrow> length (directions b) = 4 \<and> index b < 4"

lemma Branches_fill_shape:
  "length (directions (Branches_fill maze at ds idx b)) = length (directions b)
   \<and> index (Branches_fill maze at ds idx b) = index b"
  by (induction ds arbitrary: idx b) (simp_all add: Branches_fill.simps)

lemma four_slots_new: "four_slots (Branches_new maze at threadID)"
  by (simp add: four_slots_def Branches_new_def Branches_fill_shape)

lemma remove_from_shape:
  "length (directions (remove_from is b d)) = length (directions b)
   \<and> index (remove_from is b d) = index b"
  by (induction "is") simp_all

lemma four_slots_remove: "four_slots b \<Longrightarrow> four_slots (remove b d)"
  by (simp add: four_slots_def remove_def remove_from_shape)

lemma four_slots_popCurrThreads:
  "four_slots b \<Longrightarrow> four_slots (fst (snd (popCurrThreads b at maze)))"
  by (simp add: four_slots_def popCurrThreads_def Let_def)

lemma getNext_loop_shape:
  "four_slots b \<Longrightarrow> four_slots (snd (getNext_loop k b))"
  by (induction k arbitrary: b) (simp_all add: four_slots_def Let_def)

lemma four_slots_getNext: "four_slots b \<Longrightarrow> four_slots (snd (getNext b))"
  by (simp add: getNext_def getNext_loop_shape)

lemma getNextThreads_loop_shape:
  "four_slots b \<Longrightarrow> (\<And>f. fb = Some f \<Longrightarrow> f < 4) \<Longrightarrow>
     four_slots (fst (snd (getNextThreads_loop k b at maze fb)))"
proof (induction k arbitrary: b fb)
  case 0
  then show ?case
    by (cases fb) (simp_all add: getNextThreads_loop.simps four_slots_def)
next
  case (Suc k)
  have a1: "four_slots (b\<lparr>index := Suc (index b) mod 4\<rparr>)"
    using Suc.prems(1) by (simp add: four_slots_def)
  have a2: "four_slots (b\<lparr>index := Suc (index b) mod 4,
                directions := (directions b)[Suc (index b) mod 4 := Uninitialized],
                count := c\<rparr>)" for c
    using Suc.prems(1) by (simp add: four_slots_def)
  have ih: "four_slots (fst (snd (getNextThreads_loop k b' at maze fb')))"
    if "four_slots b'" and "fb' = None \<or> (\<exists>f < 4. fb' = Some f)" for b' fb'
    using that by (intro Suc.IH) auto
  have f: "fb = None \<or> (\<exists>f < 4. fb = Some f)"
    using Suc.prems(2) by (cases fb) auto
  show ?case
    using f by (auto simp: getNextThreads_loop.simps Let_def a1 a2 intro!: ih)
qed

lemma four_slots_getNextThreads:
  "four_slots b \<Longrightarrow> four_slots (fst (snd (getNextThreads b at maze)))"
  using getNextThreads_loop_shape [of b None 4 at maze]
  by (simp add: getNextThreads_def)

text \<open>A 2x2 maze without walls.\<close>

definition maze_2x2_open :: Maze where
  "maze_2x2_open = \<lparr>width = 2, height = 2, poMazeData = Int32Array [0, 0, 0, 0],
                    visitOrder = Int32Array [- 1, - 1, - 1, - 1],
                    thread_ownership = Map.empty\<rparr>"

text \<open>The \<^verbatim>\<open>Branches\<close> object of the corner (0,0) of that maze, with the exits East and
  South and the count 2, after two calls \<^verbatim>\<open>remove(Uninitialized)\<close>: each call finds slot 0
  empty, leaves the slots as they are and takes 1 off the count.\<close>

definition branches_count_0 :: Branches where
  "branches_count_0 =
     remove (remove (Branches_new maze_2x2_open (Position 0 0) 1) Uninitialized) Uninitialized"

text \<open>C7 as stated fails on that object: its count is 0 while the slots East and South are
  live, neither dead nor occupied. The description scans to the slot of South, claims it and
  returns South; the code returns \<^verbatim>\<open>Uninitialized\<close> at once, by the test
  \<^verbatim>\<open>if (this.count === 0)\<close> at its entry, which the description does not have.\<close>

theorem getNextThreads_count_0_counterexample:
  "directions branches_count_0 = [Uninitialized, East, South, Uninitialized]
   \<and> count branches_count_0 = 0 \<and> index branches_count_0 = 1
   \<and> getCell maze_2x2_open (Position 0 0) = 0
   \<and> fst (getNextThreads branches_count_0 (Position 0 0) maze_2x2_open) = Uninitialized
   \<and> fst (next_mt_spec branches_count_0 (getCell maze_2x2_open (Position 0 0))) = South"
proof -
  have b: "branches_count_0
      = \<lparr>directions = [Uninitialized, East, South, Uninitialized], count = 0, index = 1\<rparr>"
    by code_simp
  have c: "getCell maze_2x2_open (Position 0 0) = 0" by code_simp
  have "fst (next_mt_spec branches_count_0 0) = South" by code_simp
  then show ?thesis by (simp add: b c getNextThreads_def)
qed

text \<open>C7 amended: for every \<^verbatim>\<open>Branches\<close> object \<open>b\<close> (four slots and a cursor from 0 to 3,
  as the constructor builds it and every method keeps it; any count) and every cell \<open>at\<close> of
  a loaded maze: if the count is 0 on entry, \<^verbatim>\<open>getNextThreads\<close> returns \<^verbatim>\<open>Uninitialized\<close> at
  once and changes neither the object nor the maze; otherwise it returns the direction, the
  slots and the count that the description \<open>next_mt_spec\<close> gives, the cursor where that
  gives one, and the maze differs from the one before exactly as described: the state word
  of \<open>at\<close> has the OCCUPIED bit of the returned direction set when a slot is claimed, and
  nothing else changes.\<close>

theorem getNextThreads_refines_spec:
  assumes "four_slots b" and "wf_maze maze" and "in_grid maze at"
  shows "if count b = 0 then getNextThreads b at maze = (Uninitialized, b, maze)
         else agrees at maze (getNextThreads b at maze) (next_mt_spec b (getCell maze at))"
proof (cases "count b = 0")
  case True
  then show ?thesis by (simp add: getNextThreads_def)
next
  case False
  have "loop_agrees (getNextThreads_loop 4 b at maze None)
          (mk_result at maze (directions b) (count b)
             (core_spec (\<lambda>s. directions b ! s \<noteq> Uninitialized)
                (\<lambda>s. checkBranchDead maze at (directions b ! s))
                (\<lambda>s. checkBranchOccupied maze at (directions b ! s))
                (count b) (scan_order (index b) 4) None))"
    using assms(1) by (intro getNextThreads_loop_agrees) (simp_all add: four_slots_def)
  from loop_agrees_word [OF this assms(2,3)] False show ?thesis
    by (simp add: getNextThreads_def next_mt_spec_core checkBranchDead_word
          checkBranchOccupied_word)
qed

theorem getNextThreads_refines_spec_witness:
  "four_slots (Branches_new maze_2x2_open (Position 0 0) 1)
   \<and> wf_maze maze_2x2_open \<and> in_grid maze_2x2_open (Position 0 0)
   \<and> count (Branches_new maze_2x2_open (Position 0 0) 1) = 2
   \<and> next_mt_spec (Branches_new maze_2x2_open (Position 0 0) 1)
         (getCell maze_2x2_open (Position 0 0))
       = (South, [Uninitialized, East, South, Uninitialized], 2, Some 2, OCCUPIED_S)
   \<and> fst (getNextThreads (Branches_new maze_2x2_open (Position 0 0) 1) (Position 0 0)
            maze_2x2_open) = South
   \<and> getCell (snd (snd (getNextThreads (Branches_new maze_2x2_open (Position 0 0) 1)
                          (Position 0 0) maze_2x2_open))) (Position 0 0) = OCCUPIED_S
   \<and> getCell (snd (snd (getNextThreads (Branches_new maze_2x2_open (Position 0 0) 1)
                          (Position 0 0) maze_2x2_open))) (Position 0 1) = 0"
proof -
  let ?b = "Branches_new maze_2x2_open (Position 0 0) 1"
  have h: "four_slots ?b" "count ?b = 2"
    by (rule four_slots_new) code_simp
  have w: "wf_maze maze_2x2_open" "in_grid maze_2x2_open (Position 0 0)"
    by (simp_all add: wf_maze_def maze_2x2_open_def in_grid_def)
  have c: "getCell maze_2x2_open (Position 0 0) = 0" "getCell maze_2x2_open (Position 0 1) = 0"
    by code_simp+
  have s: "next_mt_spec ?b 0
      = (South, [Uninitialized, East, South, Uninitialized], 2, Some 2, OCCUPIED_S)"
    by code_simp
  from getNextThreads_refines_spec [OF h(1) w] h(2)
  have "agrees (Position 0 0) maze_2x2_open (getNextThreads ?b (Position 0 0) maze_2x2_open)
          (next_mt_spec ?b (getCell maze_2x2_open (Position 0 0)))"
    by simp
  then show ?thesis
    using h w by (auto simp: agrees_def c s split: prod.splits)
qed


section \<open>MT-M2: the walkers\<close>

record Junction =
  at :: Position
  came_from :: Direction
  branches :: Branches
  isOverlap :: bool

definition Junction_new :: "Position \<Rightarrow> Direction \<Rightarrow> Branches \<Rightarrow> Junction" where
  "Junction_new p cf br = \<lparr>at = p, came_from = cf, branches = br, isOverlap = False\<rparr>"

text \<open>A walker. \<^verbatim>\<open>target_pos\<close> and \<^verbatim>\<open>backtrack_target\<close> start as \<^verbatim>\<open>null\<close> (\<open>None\<close>); the
  stack grows at its end, as the array of the source does.\<close>

record DFSThread =
  id' :: int
  is_tb :: bool
  stack :: "Junction list"
  finished :: bool
  state :: nat
  target_pos :: "Position option"
  corridor_dir :: Direction
  backtrack_target :: "Position option"

definition DFSThread_new :: "int \<Rightarrow> bool \<Rightarrow> Position \<Rightarrow> Maze \<Rightarrow> DFSThread" where
  "DFSThread_new threadID tb start_pos maze =
     \<lparr>id' = threadID, is_tb = tb,
      stack = [Junction_new start_pos Uninitialized (Branches_new maze start_pos threadID)],
      finished = False, state = 0, target_pos = None, corridor_dir = Uninitialized,
      backtrack_target = None\<rparr>"

datatype step_result = DEAD | FOUND_TARGET | CONTINUE

text \<open>State 0 of \<^verbatim>\<open>DFSThread.step\<close> (junction processing); the stack is not empty here.\<close>

definition step_junction :: "DFSThread \<Rightarrow> Maze \<Rightarrow> error + (step_result \<times> DFSThread \<times> Maze)" where
  "step_junction t maze =
     (let junc = last (stack t) in
      if (if is_tb t
          then (if at junc = getEnd maze then True else isVisitedByTeam maze (at junc) False)
          else isVisitedByTeam maze (at junc) True)
      then Inr (FOUND_TARGET, t, maze)
      else
        (let maze = markVisitedTeam maze (at junc) (is_tb t);
             maze = setThreadOwner maze (at junc) (id' t);
             r = (if size_b (branches junc) > 0
                  then getNextThreads (branches junc) (at junc) maze
                  else (Uninitialized, branches junc, maze));
             d = fst r;
             junc = junc\<lparr>branches := fst (snd r)\<rparr>;
             maze = snd (snd r);
             t = t\<lparr>stack := butlast (stack t) @ [junc]\<rparr>
         in if d = Uninitialized then
              (let t = t\<lparr>stack := butlast (stack t)\<rparr>;
                   maze = (if isJunction maze (at junc) then markDeadJunction maze (at junc)
                           else unmarkVisitedTeam maze (at junc))
               in if stack t \<noteq> [] then
                    (let parent = last (stack t);
                         p = popCurrThreads (branches parent) (at parent) maze;
                         parent = parent\<lparr>branches := fst (snd p)\<rparr>;
                         maze = snd (snd p)
                     in Inr (CONTINUE,
                             t\<lparr>stack := butlast (stack t) @ [parent],
                               backtrack_target := Some (at parent),
                               target_pos := Some (at junc), state := 2\<rparr>,
                             maze))
                  else Inr (DEAD, t, maze))
            else Inr (CONTINUE, t\<lparr>state := 1, corridor_dir := d, target_pos := Some (at junc)\<rparr>,
                      maze)))"

text \<open>State 1 (corridor movement). A \<^verbatim>\<open>null\<close> \<^verbatim>\<open>target_pos\<close> makes \<^verbatim>\<open>this.target_pos.move\<close>
  raise a \<^verbatim>\<open>TypeError\<close>.\<close>

definition step_corridor :: "DFSThread \<Rightarrow> Maze \<Rightarrow> error + (step_result \<times> DFSThread \<times> Maze)" where
  "step_corridor t maze =
     (case target_pos t of
        None \<Rightarrow> Inl TypeError
      | Some tp \<Rightarrow>
          (let next_p = move tp (corridor_dir t);
               parent_rev = reverseDir (corridor_dir t);
               collision_found =
                 (if is_tb t
                  then (next_p = getEnd maze \<or> isVisitedByTeam maze next_p False)
                  else isVisitedByTeam maze next_p True)
           in if collision_found then
                Inr (FOUND_TARGET,
                     t\<lparr>target_pos := Some next_p,
                       stack := stack t @ [Junction_new next_p parent_rev
                                             (Branches_new maze next_p (id' t))]\<rparr>,
                     maze)
              else
                (let maze = markVisitedTeam maze next_p (is_tb t);
                     maze = setThreadOwner maze next_p (id' t);
                     maze = setDirectionRouteBT maze next_p parent_rev;
                     t = t\<lparr>target_pos := Some next_p\<rparr>;
                     br = remove (Branches_new maze next_p (id' t)) parent_rev
                 in if size_b br \<noteq> 1
                    then Inr (CONTINUE,
                              t\<lparr>stack := stack t @ [Junction_new next_p parent_rev br],
                                state := 0\<rparr>,
                              maze)
                    else Inr (CONTINUE, t\<lparr>corridor_dir := fst (getNext br)\<rparr>, maze))))"

text \<open>State 2 (backtracking).\<close>

definition step_backtrack :: "DFSThread \<Rightarrow> Maze \<Rightarrow> error + (step_result \<times> DFSThread \<times> Maze)" where
  "step_backtrack t maze =
     (case target_pos t of
        None \<Rightarrow> Inl TypeError
      | Some tp \<Rightarrow>
          (let maze = (if \<not> isJunction maze tp then unmarkVisitedTeam maze tp else maze)
           in case backtrack_target t of
                None \<Rightarrow> Inl TypeError
              | Some bt \<Rightarrow>
                  if tp = bt then Inr (CONTINUE, t\<lparr>state := 0\<rparr>, maze)
                  else
                    (let parent_dir = getDirectionRouteBT maze tp
                     in if parent_dir = Uninitialized
                        then Inr (CONTINUE, t\<lparr>state := 0\<rparr>, maze)
                        else Inr (CONTINUE, t\<lparr>target_pos := Some (move tp parent_dir)\<rparr>,
                                  maze))))"

definition step :: "DFSThread \<Rightarrow> Maze \<Rightarrow> error + (step_result \<times> DFSThread \<times> Maze)" where
  "step t maze =
     (if finished t \<or> stack t = [] then Inr (DEAD, t, maze)
      else if state t = 0 then step_junction t maze
      else if state t = 1 then step_corridor t maze
      else if state t = 2 then step_backtrack t maze
      else Inr (DEAD, t, maze))"

text \<open>C4: when a walker that passes the guard at the top of \<^verbatim>\<open>step\<close> (not finished, a
  non-empty stack) is in CORRIDOR state and the next cell is a collision (for a TB walker the
  next cell is End or has VISITED_BT, for a BT walker it has VISITED_TB), the step returns
  FOUND_TARGET, pushes the dummy junction for the next cell with a fresh \<^verbatim>\<open>Branches\<close>, sets
  \<^verbatim>\<open>target_pos\<close> to the next cell and returns the maze as it was, so the team-visit bits, the
  ownership entry and the parent bits of the next cell are unchanged.\<close>

theorem corridor_collision_keeps_maze:
  assumes "\<not> finished t" and "stack t \<noteq> []" and "state t = 1" and "target_pos t = Some tp"
    and "next_p = move tp (corridor_dir t)"
    and "if is_tb t then next_p = getEnd maze \<or> hasFlag maze next_p VISITED_BT
         else hasFlag maze next_p VISITED_TB"
  shows "\<exists>t' maze'. step t maze = Inr (FOUND_TARGET, t', maze')
           \<and> stack t' = stack t @ [Junction_new next_p (reverseDir (corridor_dir t))
                                      (Branches_new maze next_p (id' t))]
           \<and> target_pos t' = Some next_p
           \<and> maze' = maze
           \<and> hasFlag maze' next_p VISITED_TB = hasFlag maze next_p VISITED_TB
           \<and> hasFlag maze' next_p VISITED_BT = hasFlag maze next_p VISITED_BT
           \<and> getThreadOwner maze' next_p = getThreadOwner maze next_p
           \<and> thread_ownership maze' (cellIndex maze next_p)
               = thread_ownership maze (cellIndex maze next_p)
           \<and> getCell maze' next_p AND PARENT_MASK = getCell maze next_p AND PARENT_MASK"
  using assms
  by (auto simp: step_def step_corridor_def Let_def isVisitedByTeam_def)


definition maze_1x2_open :: Maze where
  "maze_1x2_open = \<lparr>width = 1, height = 2, poMazeData = Int32Array [0, 0],
                    visitOrder = Int32Array [- 1, - 1], thread_ownership = Map.empty\<rparr>"

definition walker_in_corridor :: DFSThread where
  "walker_in_corridor =
     (DFSThread_new 0 True (Position 0 0) maze_1x2_open)
       \<lparr>state := 1, target_pos := Some (Position 0 0), corridor_dir := South\<rparr>"

theorem corridor_collision_keeps_maze_witness:
  "\<not> finished walker_in_corridor \<and> stack walker_in_corridor \<noteq> []
   \<and> state walker_in_corridor = 1 \<and> is_tb walker_in_corridor
   \<and> getEnd maze_1x2_open = Position 1 0
   \<and> step walker_in_corridor maze_1x2_open
       = Inr (FOUND_TARGET,
              walker_in_corridor
                \<lparr>target_pos := Some (Position 1 0),
                 stack := stack walker_in_corridor
                          @ [Junction_new (Position 1 0) North
                               (Branches_new maze_1x2_open (Position 1 0) 0)]\<rparr>,
              maze_1x2_open)"
proof -
  have h1: "\<not> finished walker_in_corridor" and h2: "stack walker_in_corridor \<noteq> []"
    and h3: "state walker_in_corridor = 1"
    and h4: "target_pos walker_in_corridor = Some (Position 0 0)"
    and h6: "is_tb walker_in_corridor"
    by (simp_all add: walker_in_corridor_def DFSThread_new_def)
  have h5: "Position 1 0 = move (Position 0 0) (corridor_dir walker_in_corridor)"
    by (simp add: walker_in_corridor_def DFSThread_new_def)
  have e: "getEnd maze_1x2_open = Position 1 0"
    by (simp add: getEnd_def maze_1x2_open_def)
  have c: "if is_tb walker_in_corridor
      then Position 1 0 = getEnd maze_1x2_open \<or> hasFlag maze_1x2_open (Position 1 0) VISITED_BT
      else hasFlag maze_1x2_open (Position 1 0) VISITED_TB"
    by (simp add: h6 e)
  have ev: "step walker_in_corridor maze_1x2_open
       = Inr (FOUND_TARGET,
              walker_in_corridor
                \<lparr>target_pos := Some (Position 1 0),
                 stack := stack walker_in_corridor
                          @ [Junction_new (Position 1 0) North
                               (Branches_new maze_1x2_open (Position 1 0) 0)]\<rparr>,
              maze_1x2_open)"
    by (simp add: step_def step_corridor_def Let_def e walker_in_corridor_def DFSThread_new_def)
  from corridor_collision_keeps_maze [OF h1 h2 h3 h4 h5 c]
  have "\<exists>t'. step walker_in_corridor maze_1x2_open = Inr (FOUND_TARGET, t', maze_1x2_open)"
    by blast
  with ev h1 h2 h3 h6 e show ?thesis by simp
qed

section \<open>MT-M2: the solver\<close>

datatype token = SEARCHING | BACKTRACKING | FINISHED | NO_SOLUTION

text \<open>One pass of \<^verbatim>\<open>for (let t of this.threads)\<close> over the thread indices left; the result is
  the threads, the maze, \<^verbatim>\<open>active_threads\<close>, \<^verbatim>\<open>found\<close> and \<^verbatim>\<open>collision_pos\<close>.\<close>

fun mt_round ::
  "nat list \<Rightarrow> DFSThread list \<Rightarrow> Maze \<Rightarrow> nat \<Rightarrow> Position option
     \<Rightarrow> error + (DFSThread list \<times> Maze \<times> nat \<times> bool \<times> Position option)" where
  "mt_round [] ts maze active cp = Inr (ts, maze, active, False, cp)"
| "mt_round (i # is) ts maze active cp =
     (if finished (ts ! i) then mt_round is ts maze active cp
      else
        (case step (ts ! i) maze of
           Inl e \<Rightarrow> Inl e
         | Inr (res, t', maze') \<Rightarrow>
             (case res of
                DEAD \<Rightarrow> mt_round is (ts[i := t'\<lparr>finished := True\<rparr>]) maze' active cp
              | FOUND_TARGET \<Rightarrow>
                  Inr (ts[i := t'], maze', active, True,
                       if stack t' \<noteq> [] then target_pos t' else cp)
              | CONTINUE \<Rightarrow> mt_round is (ts[i := t']) maze' (active + 1) cp)))"

text \<open>The \<^verbatim>\<open>while (!found)\<close> loop, one round and one \<^verbatim>\<open>SEARCHING\<close> per iteration; the first
  argument bounds the number of rounds (\<open>None\<close>: the bound was reached).\<close>

fun mt_search ::
  "nat \<Rightarrow> DFSThread list \<Rightarrow> Maze \<Rightarrow> Position option
     \<Rightarrow> (error + (token list \<times> DFSThread list \<times> Maze \<times> bool \<times> Position option)) option" where
  "mt_search 0 ts maze cp = None"
| "mt_search (Suc n) ts maze cp =
     (case mt_round [0..<length ts] ts maze 0 cp of
        Inl e \<Rightarrow> Some (Inl e)
      | Inr (ts', maze', active, found, cp') \<Rightarrow>
          if found then Some (Inr ([SEARCHING], ts', maze', True, cp'))
          else if active = 0 then Some (Inr ([SEARCHING], ts', maze', False, cp'))
          else
            (case mt_search n ts' maze' cp' of
               None \<Rightarrow> None
             | Some (Inl e) \<Rightarrow> Some (Inl e)
             | Some (Inr (toks, r)) \<Rightarrow> Some (Inr (SEARCHING # toks, r))))"

definition cardinal :: "Direction list" where
  "cardinal = [North, East, South, West]"

text \<open>Part 1 of the reconstruction: the cell the TB backtrack starts from.\<close>

definition tb_entry :: "Maze \<Rightarrow> Position \<Rightarrow> Position" where
  "tb_entry maze collision_pos =
     (if \<not> isVisitedByTeam maze collision_pos True
      then (case find (\<lambda>d. isVisitedByTeam maze (move collision_pos d) True) cardinal of
              Some d \<Rightarrow> move collision_pos d
            | None \<Rightarrow> collision_pos)
      else collision_pos)"

text \<open>The \<^verbatim>\<open>while (!temp.eq(start))\<close> loop that collects \<^verbatim>\<open>path_tb\<close>, with a bound on its
  iterations; the final \<^verbatim>\<open>path_tb.push(start)\<close> is included.\<close>

fun tb_walk :: "nat \<Rightarrow> Maze \<Rightarrow> Position \<Rightarrow> Position \<Rightarrow> Position list \<Rightarrow> Position list option" where
  "tb_walk 0 maze start temp path_tb = (if temp = start then Some (path_tb @ [start]) else None)"
| "tb_walk (Suc n) maze start temp path_tb =
     (if temp = start then Some (path_tb @ [start])
      else
        (let path_tb = path_tb @ [temp];
             parent_dir = getDirectionRouteBT maze temp
         in if parent_dir = Uninitialized then Some (path_tb @ [start])
            else tb_walk n maze start (move temp parent_dir) path_tb))"

text \<open>Part 2: the BT walker whose stack guides the second half.\<close>

fun find_bt_thread :: "Position list \<Rightarrow> Maze \<Rightarrow> DFSThread list \<Rightarrow> DFSThread option" where
  "find_bt_thread [] maze ts = None"
| "find_bt_thread (pos # ps) maze ts =
     (if isVisitedByTeam maze pos False
      then (let tid = getThreadOwner maze pos
            in if tid \<ge> 3
               then (if tid < int (length ts) then Some (ts ! nat tid) else None)
               else find_bt_thread ps maze ts)
      else find_bt_thread ps maze ts)"

definition sync_stack_idx :: "Junction list \<Rightarrow> Position \<Rightarrow> nat" where
  "sync_stack_idx st collision_pos =
     (let stack_idx = length st - 1
      in if at (st ! stack_idx) \<noteq> collision_pos
         then (case find (\<lambda>i. at (st ! i) = collision_pos) (rev [0..<length st]) of
                 Some i \<Rightarrow> i
               | None \<Rightarrow> stack_idx)
         else stack_idx)"

text \<open>The inner \<^verbatim>\<open>while (!cur.eq(node_goal.at))\<close> loop, with a bound on its iterations. The
  result is the maze, the cell the walk stopped on and the tokens yielded.\<close>

fun corridor_walk ::
  "nat \<Rightarrow> Maze \<Rightarrow> int \<Rightarrow> Position \<Rightarrow> Position \<Rightarrow> Direction \<Rightarrow> (Maze \<times> Position \<times> token list) option" where
  "corridor_walk 0 maze bt_id goal cur jump_dir =
     (if cur = goal then Some (maze, cur, []) else None)"
| "corridor_walk (Suc n) maze bt_id goal cur jump_dir =
     (if cur = goal then Some (maze, cur, [])
      else
        (let maze = markPath maze cur;
             back_dir = reverseDir jump_dir;
             next_dir =
               (case find (\<lambda>d. move cur d = goal) cardinal of
                  Some d \<Rightarrow> Some d
                | None \<Rightarrow>
                    (case find (\<lambda>d. d \<noteq> back_dir \<and> canMove maze cur d
                                   \<and> getThreadOwner maze (move cur d) = bt_id
                                   \<and> isVisitedByTeam maze (move cur d) False) cardinal of
                       Some d \<Rightarrow> Some d
                     | None \<Rightarrow>
                         find (\<lambda>d. d \<noteq> back_dir \<and> canMove maze cur d
                                  \<and> isVisitedByTeam maze (move cur d) False) cardinal))
         in case next_dir of
              None \<Rightarrow> Some (maze, cur, [BACKTRACKING])
            | Some d \<Rightarrow>
                (case corridor_walk n maze bt_id goal (move cur d) d of
                   None \<Rightarrow> None
                 | Some (maze', cur', toks) \<Rightarrow> Some (maze', cur', BACKTRACKING # toks))))"

text \<open>The outer \<^verbatim>\<open>while (stack_idx > 0)\<close> loop over the segments.\<close>

fun segment_walk ::
  "nat \<Rightarrow> nat \<Rightarrow> Junction list \<Rightarrow> int \<Rightarrow> Maze \<Rightarrow> Position \<Rightarrow> (Maze \<times> token list) option" where
  "segment_walk n 0 st bt_id maze cur = Some (maze, [])"
| "segment_walk n (Suc i) st bt_id maze cur =
     (let node_curr = st ! Suc i;
          node_goal = st ! i;
          maze = markPath maze cur;
          jump_dir = came_from node_curr;
          cur = move cur jump_dir
      in case corridor_walk n maze bt_id (at node_goal) cur jump_dir of
           None \<Rightarrow> None
         | Some (maze, cur, toks) \<Rightarrow>
             (case segment_walk n i st bt_id maze cur of
                None \<Rightarrow> None
              | Some (maze, toks') \<Rightarrow> Some (maze, BACKTRACKING # toks @ toks')))"

definition mt_reconstruct ::
  "nat \<Rightarrow> DFSThread list \<Rightarrow> Maze \<Rightarrow> Position \<Rightarrow> (token list \<times> Maze) option" where
  "mt_reconstruct n ts maze collision_pos =
     (let start = getStart maze; end' = getEnd maze
      in case tb_walk n maze start (tb_entry maze collision_pos) [] of
           None \<Rightarrow> None
         | Some path_tb \<Rightarrow>
             (let maze = fold (\<lambda>p m. markPath m p) (rev path_tb) maze;
                  toks1 = replicate (length path_tb) BACKTRACKING;
                  check_list = collision_pos # map (move collision_pos) cardinal
              in case find_bt_thread check_list maze ts of
                   None \<Rightarrow> Some (toks1 @ [FINISHED], maze)
                 | Some bt_thread \<Rightarrow>
                     if stack bt_thread = [] then Some (toks1 @ [FINISHED], maze)
                     else
                       (let stack_idx = sync_stack_idx (stack bt_thread) collision_pos;
                            cur = at (stack bt_thread ! stack_idx)
                        in case segment_walk n stack_idx (stack bt_thread) (id' bt_thread)
                                  maze cur of
                             None \<Rightarrow> None
                           | Some (maze, toks2) \<Rightarrow>
                               Some (toks1 @ toks2 @ [FINISHED], markPath maze end'))))"

text \<open>\<^verbatim>\<open>MTSolver.solve_step_by_step\<close>: the tokens yielded and the final maze; \<open>None\<close> when one of
  the loops needs more than \<open>n\<close> iterations.\<close>

definition MTSolver_solve :: "nat \<Rightarrow> Maze \<Rightarrow> (error + (token list \<times> Maze)) option" where
  "MTSolver_solve n maze =
     (let start = getStart maze; end' = getEnd maze;
          ts = map (\<lambda>i. DFSThread_new i True start maze) [0, 1, 2]
               @ map (\<lambda>i. DFSThread_new (i + 3) False end' maze) [0, 1, 2];
          maze = markVisitedTeam maze start True;
          maze = setThreadOwner maze start 0;
          maze = markVisitedTeam maze end' False;
          maze = setThreadOwner maze end' 3
      in case mt_search n ts maze None of
           None \<Rightarrow> None
         | Some (Inl e) \<Rightarrow> Some (Inl e)
         | Some (Inr (toks, ts, maze, found, collision_pos)) \<Rightarrow>
             (case (if found then collision_pos else None) of
                Some cp \<Rightarrow>
                  (case mt_reconstruct n ts maze cp of
                     None \<Rightarrow> None
                   | Some (toks', maze) \<Rightarrow> Some (Inr (toks @ toks', maze)))
              | None \<Rightarrow> Some (Inr (toks @ [NO_SOLUTION], maze))))"

section \<open>BFS and DFS solvers\<close>

text \<open>The parent direction stored for a cell entered by a move in direction \<open>d\<close> (the
  \<^verbatim>\<open>if\<close> chain of both solvers).\<close>

definition child_parent :: "Direction \<Rightarrow> Direction" where
  "child_parent d =
     (if d = North then South else if d = South then North
      else if d = East then West else if d = West then East else Uninitialized)"

text \<open>The \<^verbatim>\<open>for (let d of dirs)\<close> loop of the BFS: maze, queue and \<^verbatim>\<open>visit_counter\<close>.\<close>

fun bfs_expand ::
  "Direction list \<Rightarrow> Maze \<Rightarrow> Position \<Rightarrow> Position list \<Rightarrow> int \<Rightarrow> Maze \<times> Position list \<times> int" where
  "bfs_expand [] maze cur q visit_counter = (maze, q, visit_counter)"
| "bfs_expand (d # ds) maze cur q visit_counter =
     (if canMove maze cur d then
        (let nextPos = move cur d
         in if getVisitOrder maze nextPos = Some (- 1) then
              (let maze = setDirectionRouteBT maze nextPos (child_parent d);
                   maze = setVisitOrder maze nextPos visit_counter
               in bfs_expand ds maze cur (q @ [nextPos]) (visit_counter + 1))
            else bfs_expand ds maze cur q visit_counter)
      else bfs_expand ds maze cur q visit_counter)"

text \<open>The \<^verbatim>\<open>while (q.length > 0)\<close> loop: tokens, maze and \<^verbatim>\<open>found\<close>; the first argument bounds
  the iterations.\<close>

declare bfs_expand.simps [simp del]

function (sequential) bfs_search ::
  "nat \<Rightarrow> Position \<Rightarrow> Maze \<Rightarrow> Position list \<Rightarrow> int \<Rightarrow> (token list \<times> Maze \<times> bool) option" where
  "bfs_search n end' maze [] visit_counter = Some ([], maze, False)"
| "bfs_search 0 end' maze (cur # q) visit_counter = None"
| "bfs_search (Suc n) end' maze (cur # q) visit_counter =
     (if cur = end' then Some ([SEARCHING], maze, True)
      else
        (case bfs_expand [South, West, East, North] maze cur q visit_counter of
           (maze', q', visit_counter') \<Rightarrow>
             (case bfs_search n end' maze' q' visit_counter' of
                None \<Rightarrow> None
              | Some (toks, r) \<Rightarrow> Some (SEARCHING # toks, r))))"
  by pat_completeness auto
termination
  by (relation "measure (\<lambda>(n, end', maze, q, visit_counter). n)") auto

text \<open>The path-marking loop \<^verbatim>\<open>while (true)\<close> shared by BFS and DFS.\<close>

fun mark_back :: "nat \<Rightarrow> Maze \<Rightarrow> Position \<Rightarrow> Position \<Rightarrow> (token list \<times> Maze) option" where
  "mark_back 0 maze start cur = None"
| "mark_back (Suc n) maze start cur =
     (if cur = start then Some ([BACKTRACKING], markPath maze cur)
      else if getDirectionRouteBT (markPath maze cur) cur = Uninitialized
      then Some ([BACKTRACKING], markPath maze cur)
      else
        (case mark_back n (markPath maze cur) start
                (move cur (getDirectionRouteBT (markPath maze cur) cur)) of
           None \<Rightarrow> None
         | Some (toks, maze') \<Rightarrow> Some (BACKTRACKING # toks, maze')))"

definition finish_solve ::
  "nat \<Rightarrow> Position \<Rightarrow> Position \<Rightarrow> (token list \<times> Maze \<times> bool) option \<Rightarrow> (token list \<times> Maze) option" where
  "finish_solve n start end' r =
     (case r of
        None \<Rightarrow> None
      | Some (toks, maze, found) \<Rightarrow>
          if found then
            (case mark_back n maze start end' of
               None \<Rightarrow> None
             | Some (toks', maze') \<Rightarrow> Some (toks @ toks' @ [FINISHED], maze'))
          else Some (toks @ [NO_SOLUTION], maze))"

text \<open>\<^verbatim>\<open>BFSSolver.solve_step_by_step\<close>: the tokens yielded and the final maze; \<open>None\<close> when a
  loop needs more than \<open>n\<close> iterations.\<close>

definition BFSSolver_solve :: "nat \<Rightarrow> Maze \<Rightarrow> (token list \<times> Maze) option" where
  "BFSSolver_solve n maze =
     (let start = getStart maze; end' = getEnd maze;
          maze = setVisitOrder maze start 0;
          maze = setDirectionRouteBT maze start Uninitialized
      in finish_solve n start end' (bfs_search n end' maze [start] 1))"

text \<open>DFS: the first walkable neighbour not yet visited, marked and returned with its parent
  direction.\<close>

fun dfs_advance ::
  "Direction list \<Rightarrow> Maze \<Rightarrow> Position \<Rightarrow> int \<Rightarrow> (Maze \<times> Position \<times> Direction) option" where
  "dfs_advance [] maze cur visit_counter = None"
| "dfs_advance (d # ds) maze cur visit_counter =
     (if canMove maze cur d \<and> getVisitOrder maze (move cur d) = Some (- 1) then
        (let nextPos = move cur d;
             maze = setVisitOrder maze nextPos visit_counter;
             maze = markOnStack maze nextPos True;
             maze = setDirectionRouteBT maze nextPos (child_parent d)
         in Some (maze, nextPos, child_parent d))
      else dfs_advance ds maze cur visit_counter)"

definition dfs_has_opts :: "Maze \<Rightarrow> Position \<Rightarrow> bool" where
  "dfs_has_opts maze p_top \<longleftrightarrow>
     (\<exists>d \<in> set [South, East, West, North].
        canMove maze p_top d \<and> getVisitOrder maze (move p_top d) = Some (- 1))"

definition dfs_pop :: "Maze \<Rightarrow> Position \<Rightarrow> Maze" where
  "dfs_pop maze p =
     (let maze = markOnStack maze p False;
          maze = clearFlag maze p VISITED_BIT
      in if isJunction maze p then markDeadJunction maze p else maze)"

text \<open>The \<^verbatim>\<open>while (stack.length > 0)\<close> loop of the DFS; the stack grows at its end.\<close>

declare dfs_advance.simps [simp del]

function (sequential) dfs_search ::
  "nat \<Rightarrow> Position \<Rightarrow> Maze \<Rightarrow> (Position \<times> Direction) list \<Rightarrow> int
     \<Rightarrow> (token list \<times> Maze \<times> bool) option" where
  "dfs_search n end' maze [] visit_counter = Some ([], maze, False)"
| "dfs_search 0 end' maze (e # st) visit_counter = None"
| "dfs_search (Suc n) end' maze (e # st) visit_counter =
     (let stack = e # st; cur = fst (last stack)
      in if cur = end' then Some ([SEARCHING], maze, True)
         else
           (case (case dfs_advance [South, East, West, North] maze cur visit_counter of
                    Some (maze', nextPos, parent) \<Rightarrow>
                      dfs_search n end' maze' (stack @ [(nextPos, parent)]) (visit_counter + 1)
                  | None \<Rightarrow>
                      if \<not> dfs_has_opts maze (fst (last stack))
                      then dfs_search n end' (dfs_pop maze (fst (last stack))) (butlast stack)
                             visit_counter
                      else dfs_search n end' maze stack visit_counter) of
              None \<Rightarrow> None
            | Some (toks, r) \<Rightarrow> Some (SEARCHING # toks, r)))"
  by pat_completeness auto
termination
  by (relation "measure (\<lambda>(n, end', maze, st, visit_counter). n)") auto

definition DFSSolver_solve :: "nat \<Rightarrow> Maze \<Rightarrow> (token list \<times> Maze) option" where
  "DFSSolver_solve n maze =
     (let start = getStart maze; end' = getEnd maze;
          maze = setVisitOrder maze start 0;
          maze = markOnStack maze start True;
          maze = setDirectionRouteBT maze start Uninitialized
      in finish_solve n start end' (dfs_search n end' maze [(start, Uninitialized)] 1))"

section \<open>MT-M1 solver\<close>

datatype prune_phase = SCAN | PRUNE

text \<open>A pruner. Its inbound queue and the two outbound queues are \<^verbatim>\<open>Deque\<close> objects shared
  with the neighbouring pruners; they are kept in one list of queues in the solver, and the
  pruner holds their indices (\<open>None\<close> for \<^verbatim>\<open>null\<close>).\<close>

record PruneThread =
  id_pr :: int
  row_start :: int
  row_end :: int
  in_q :: nat
  out_q_top :: "nat option"
  out_q_bottom :: "nat option"
  stack_pr :: "Position list"
  phase :: prune_phase
  iter_row :: int
  iter_col :: int
  finished_pr :: bool

definition PruneThread_new ::
  "int \<Rightarrow> int \<Rightarrow> int \<Rightarrow> nat \<Rightarrow> nat option \<Rightarrow> nat option \<Rightarrow> PruneThread" where
  "PruneThread_new tid rs re inq qt qb =
     \<lparr>id_pr = tid, row_start = rs, row_end = re, in_q = inq, out_q_top = qt,
      out_q_bottom = qb, stack_pr = [], phase = SCAN, iter_row = rs, iter_col = 0,
      finished_pr = False\<rparr>"

text \<open>The \<^verbatim>\<open>for (let k = 0; k < this.maze.width; k++)\<close> loop of the scan phase.\<close>

fun scan_loop :: "nat \<Rightarrow> PruneThread \<Rightarrow> Maze \<Rightarrow> PruneThread" where
  "scan_loop 0 p maze = p"
| "scan_loop (Suc k) p maze =
     (let p = (if iter_col p \<ge> width maze then p\<lparr>iter_col := 0, iter_row := iter_row p + 1\<rparr>
               else p)
      in if iter_row p \<ge> row_end p then p\<lparr>phase := PRUNE\<rparr>
         else
           (let pos = Position (iter_row p) (iter_col p)
            in if pos = getStart maze \<or> pos = getEnd maze
               then scan_loop k (p\<lparr>iter_col := iter_col p + 1\<rparr>) maze
               else
                 (let p = (if length (getAvailableMovesNoPruned maze pos) \<le> 1
                           then p\<lparr>stack_pr := stack_pr p @ [pos]\<rparr> else p)
                  in scan_loop k (p\<lparr>iter_col := iter_col p + 1\<rparr>) maze)))"

definition append_to :: "nat option \<Rightarrow> Position \<Rightarrow> Position list list \<Rightarrow> Position list list" where
  "append_to qi pos queues =
     (case qi of None \<Rightarrow> queues | Some i \<Rightarrow> queues[i := queues ! i @ [pos]])"

text \<open>The prune phase: the inbound queue is drained onto the stack, then the body of
  \<^verbatim>\<open>while (this.stack.length > 0 && processed_count < 1)\<close> runs once.\<close>

definition prune_step ::
  "PruneThread \<Rightarrow> Position list list \<Rightarrow> Maze \<Rightarrow> PruneThread \<times> Position list list \<times> Maze" where
  "prune_step p queues maze =
     (let p = p\<lparr>stack_pr := stack_pr p @ (queues ! in_q p)\<rparr>;
          queues = queues[in_q p := []]
      in if stack_pr p = [] then (p, queues, maze)
         else
           (let pos = last (stack_pr p);
                p = p\<lparr>stack_pr := butlast (stack_pr p)\<rparr>
            in if isPruned maze pos then (p, queues, maze)
               else
                 (let maze = markPruned maze pos;
                      maze = setThreadOwner maze pos (id_pr p);
                      moves = getAvailableMovesNoPruned maze pos
                  in if length moves = 1 then
                       (let d = moves ! 0; neighbor = move pos d
                        in if neighbor = getStart maze \<or> neighbor = getEnd maze
                           then (p, queues, maze)
                           else if length (getAvailableMovesNoPruned maze neighbor) \<le> 1 then
                             (if row neighbor < row_start p
                              then (p, append_to (out_q_top p) neighbor queues, maze)
                              else if row neighbor \<ge> row_end p
                              then (p, append_to (out_q_bottom p) neighbor queues, maze)
                              else (p\<lparr>stack_pr := stack_pr p @ [neighbor]\<rparr>, queues, maze))
                           else (p, queues, maze))
                     else (p, queues, maze))))"

definition PruneThread_step ::
  "PruneThread \<Rightarrow> Position list list \<Rightarrow> Maze \<Rightarrow> PruneThread \<times> Position list list \<times> Maze" where
  "PruneThread_step p queues maze =
     (if finished_pr p then (p, queues, maze)
      else if phase p = SCAN then (scan_loop (nat (width maze)) p maze, queues, maze)
      else prune_step p queues maze)"

record WalkThreadTB =
  curr' :: Position
  came_from_w :: Direction
  finished_w :: bool
  found_w :: bool
  overlap :: "Position option"

definition WalkThreadTB_new :: "Maze \<Rightarrow> WalkThreadTB" where
  "WalkThreadTB_new maze =
     \<lparr>curr' = getStart maze, came_from_w = Uninitialized, finished_w = False, found_w = False,
      overlap = None\<rparr>"

text \<open>\<^verbatim>\<open>WalkThreadTB.step\<close>: the walker, the shared \<^verbatim>\<open>solve_list\<close>, the shared
  \<^verbatim>\<open>first_exit\<close> flag and the maze.\<close>

definition WalkThreadTB_step ::
  "WalkThreadTB \<Rightarrow> Direction list \<Rightarrow> bool \<Rightarrow> Maze \<Rightarrow> WalkThreadTB \<times> Direction list \<times> bool \<times> Maze" where
  "WalkThreadTB_step w solve_list first_exit maze =
     (if finished_w w then (w, solve_list, first_exit, maze)
      else if getDirectionRouteBT maze (curr' w) \<noteq> Uninitialized
      then (w\<lparr>overlap := Some (curr' w), finished_w := True\<rparr>, solve_list, first_exit, maze)
      else if curr' w = getEnd maze
      then (w\<lparr>found_w := True, finished_w := True\<rparr>, solve_list, True, maze)
      else
        (let moves = getAvailableMovesNoPruned maze (curr' w);
             moves = (if came_from_w w \<noteq> Uninitialized then remove1 (came_from_w w) moves
                      else moves)
         in if length moves = 1 then
              (let go_to = moves ! 0;
                   c = move (curr' w) go_to
               in (w\<lparr>curr' := c, overlap := Some c, came_from_w := reverseDir go_to\<rparr>,
                   solve_list @ [go_to], first_exit, markVisitedTeam maze c True))
            else if length moves > 1 then (w, solve_list, first_exit, maze)
            else (w\<lparr>finished_w := True\<rparr>, solve_list, first_exit, maze)))"

record BFSThreadBT =
  q_b :: "Position list"
  finished_b :: bool
  found_b :: bool

text \<open>The \<^verbatim>\<open>for\<close> loop over the neighbours in \<^verbatim>\<open>BFSThreadBT.step\<close>.\<close>

fun bt_expand :: "Direction list \<Rightarrow> Maze \<Rightarrow> Position \<Rightarrow> Position list \<Rightarrow> Maze \<times> Position list" where
  "bt_expand [] maze cur q = (maze, q)"
| "bt_expand (d # ds) maze cur q =
     (if canMove maze cur d then
        (let nextPos = move cur d
         in if isPruned maze nextPos then bt_expand ds maze cur q
            else if getDirectionRouteBT maze nextPos = Uninitialized then
              (let maze = setDirectionRouteBT maze nextPos (reverseDir d);
                   q = q @ [nextPos];
                   maze = markVisitedTeam maze nextPos False
               in bt_expand ds maze cur q)
            else bt_expand ds maze cur q)
      else bt_expand ds maze cur q)"

declare bt_expand.simps [simp del]

text \<open>The \<^verbatim>\<open>while (this.q.length > 0 && steps < 2)\<close> loop; the first argument is the number of
  pops still allowed.\<close>

fun bt_loop :: "nat \<Rightarrow> BFSThreadBT \<Rightarrow> bool \<Rightarrow> Maze \<Rightarrow> BFSThreadBT \<times> bool \<times> Maze" where
  "bt_loop 0 b first_exit maze = (b, first_exit, maze)"
| "bt_loop (Suc k) b first_exit maze =
     (case q_b b of
        [] \<Rightarrow> (b, first_exit, maze)
      | cur # rest \<Rightarrow>
          (let b = b\<lparr>q_b := rest\<rparr>
           in if isPruned maze cur then bt_loop k b first_exit maze
              else if cur = getStart maze
              then (b\<lparr>found_b := True, finished_b := True\<rparr>, True, maze)
              else
                (case bt_expand [South, West, East, North] maze cur (q_b b) of
                   (maze', q') \<Rightarrow> bt_loop k (b\<lparr>q_b := q'\<rparr>) first_exit maze')))"

definition BFSThreadBT_step :: "BFSThreadBT \<Rightarrow> bool \<Rightarrow> Maze \<Rightarrow> BFSThreadBT \<times> bool \<times> Maze" where
  "BFSThreadBT_step b first_exit maze =
     (if finished_b b \<or> first_exit then (b\<lparr>finished_b := True\<rparr>, first_exit, maze)
      else bt_loop 2 b first_exit maze)"

text \<open>The solver object: pruners, their queues, walker, BFS, \<^verbatim>\<open>solve_list\<close> and
  \<^verbatim>\<open>first_exit\<close>.\<close>

record MT_M1_Solver =
  pruners :: "PruneThread list"
  queues :: "Position list list"
  walker :: WalkThreadTB
  bfs :: BFSThreadBT
  solve_list :: "Direction list"
  first_exit :: bool

text \<open>JavaScript's \<^verbatim>\<open>%\<close> takes the sign of the dividend.\<close>

definition js_rem :: "int \<Rightarrow> int \<Rightarrow> int" where
  "js_rem a b = (if a \<ge> 0 then a mod \<bar>b\<bar> else - ((- a) mod \<bar>b\<bar>))"

definition make_pruner :: "Maze \<Rightarrow> nat \<Rightarrow> PruneThread" where
  "make_pruner maze i =
     (let N = 4; chunk = height maze div N; remainder = js_rem (height maze) N;
          rs = int i * chunk + min (int i) remainder;
          re = (int i + 1) * chunk + min (int i + 1) remainder
      in PruneThread_new (int i) rs re i (if i > 0 then Some (i - 1) else None)
           (if int i < N - 1 then Some (i + 1) else None))"

text \<open>The constructor; \<^verbatim>\<open>new BFSThreadBT(maze)\<close> already writes to the maze.\<close>

definition MT_M1_Solver_new :: "Maze \<Rightarrow> MT_M1_Solver \<times> Maze" where
  "MT_M1_Solver_new maze =
     (\<lparr>pruners = map (make_pruner maze) [0, 1, 2, 3],
       queues = [[], [], [], []],
       walker = WalkThreadTB_new maze,
       bfs = \<lparr>q_b = [getEnd maze], finished_b = False, found_b = False\<rparr>,
       solve_list = [],
       first_exit = False\<rparr>,
      setDirectionRouteBT maze (getEnd maze) Uninitialized)"

fun step_pruners :: "nat list \<Rightarrow> MT_M1_Solver \<Rightarrow> Maze \<Rightarrow> MT_M1_Solver \<times> Maze" where
  "step_pruners [] s maze = (s, maze)"
| "step_pruners (i # is) s maze =
     (case PruneThread_step (pruners s ! i) (queues s) maze of
        (p, qs, maze') \<Rightarrow> step_pruners is (s\<lparr>pruners := (pruners s)[i := p], queues := qs\<rparr>) maze')"

text \<open>One iteration of the main loop up to its \<^verbatim>\<open>break\<close> test.\<close>

definition m1_round :: "MT_M1_Solver \<Rightarrow> Maze \<Rightarrow> MT_M1_Solver \<times> Maze" where
  "m1_round s maze =
     (case step_pruners [0..<length (pruners s)] s maze of
        (s, maze) \<Rightarrow>
          (case WalkThreadTB_step (walker s) (solve_list s) (first_exit s) maze of
             (w, sl, fe, maze) \<Rightarrow>
               (case BFSThreadBT_step (bfs s) fe maze of
                  (b, fe, maze) \<Rightarrow>
                    (s\<lparr>walker := w, solve_list := sl, bfs := b, first_exit := fe\<rparr>, maze))))"

text \<open>The main \<^verbatim>\<open>while\<close> loop, with a bound on its iterations.\<close>

fun m1_search :: "nat \<Rightarrow> MT_M1_Solver \<Rightarrow> Maze \<Rightarrow> (token list \<times> MT_M1_Solver \<times> Maze) option" where
  "m1_search n s maze =
     (if \<not> first_exit s \<and> (\<not> finished_w (walker s) \<or> \<not> finished_b (bfs s)) then
        (case n of
           0 \<Rightarrow> None
         | Suc k \<Rightarrow>
             (case m1_round s maze of
                (s', maze') \<Rightarrow>
                  if finished_w (walker s') \<and> overlap (walker s') \<noteq> None
                  then Some ([], s', maze')
                  else
                    (case m1_search k s' maze' of
                       None \<Rightarrow> None
                     | Some (toks, r) \<Rightarrow> Some (SEARCHING # toks, r))))
      else Some ([], s, maze))"

declare m1_search.simps [simp del]

text \<open>Reconstruction: the replay of \<^verbatim>\<open>solve_list\<close>, then the walk along the parent bits.\<close>

fun m1_replay :: "Direction list \<Rightarrow> Maze \<Rightarrow> Position \<Rightarrow> Maze \<times> Position" where
  "m1_replay [] maze cur = (maze, cur)"
| "m1_replay (d # ds) maze cur = m1_replay ds (markPath maze cur) (move cur d)"

fun m1_follow :: "nat \<Rightarrow> Maze \<Rightarrow> Position \<Rightarrow> (token list \<times> Maze) option" where
  "m1_follow n maze cur =
     (if cur \<noteq> getEnd maze then
        (case n of
           0 \<Rightarrow> None
         | Suc k \<Rightarrow>
             (let maze = markPath maze cur; d = getDirectionRouteBT maze cur
              in if d = Uninitialized then Some ([], maze)
                 else
                   (case m1_follow k maze (move cur d) of
                      None \<Rightarrow> None
                    | Some (toks, maze') \<Rightarrow> Some (BACKTRACKING # toks, maze'))))
      else Some ([], maze))"

declare m1_follow.simps [simp del]

definition MT_M1_solve :: "nat \<Rightarrow> Maze \<Rightarrow> (token list \<times> Maze) option" where
  "MT_M1_solve n maze =
     (case MT_M1_Solver_new maze of
        (s, maze) \<Rightarrow>
          (case m1_search n s maze of
             None \<Rightarrow> None
           | Some (toks, s, maze) \<Rightarrow>
               (case m1_replay (solve_list s) maze (getStart maze) of
                  (maze, cur) \<Rightarrow>
                    (case m1_follow n maze cur of
                       None \<Rightarrow> None
                     | Some (toks', maze) \<Rightarrow>
                         Some (toks @ replicate (length (solve_list s)) BACKTRACKING @ toks'
                               @ [FINISHED],
                               markPath maze (getEnd maze))))))"

section \<open>Runs of the solvers on small mazes\<close>

text \<open>The cells of the grid, row by row, and those of them marked ON_PATH.\<close>

definition all_cells :: "Maze \<Rightarrow> Position list" where
  "all_cells m = concat (map (\<lambda>r. map (\<lambda>c. Position r c) [0..width m - 1]) [0..height m - 1])"

definition on_path_list :: "Maze \<Rightarrow> Position list" where
  "on_path_list m = filter (\<lambda>p. hasFlag m p PATH_BIT) (all_cells m)"

definition open_edge :: "Maze \<Rightarrow> Position \<Rightarrow> Position \<Rightarrow> bool" where
  "open_edge m p q \<longleftrightarrow> (\<exists>d \<in> set cardinal. canMove m p d \<and> move p d = q)"

fun linked :: "Maze \<Rightarrow> Position list \<Rightarrow> bool" where
  "linked m (p # q # ps) = (open_edge m p q \<and> linked m (q # ps))"
| "linked m ps = True"

text \<open>The ON_PATH cells of \<open>m\<close> are exactly the cells of \<open>ps\<close>, a chain from Start to End whose
  consecutive cells are joined by open edges.\<close>

definition is_chain :: "Maze \<Rightarrow> Position list \<Rightarrow> bool" where
  "is_chain m ps \<longleftrightarrow> ps \<noteq> [] \<and> hd ps = getStart m \<and> last ps = getEnd m \<and> distinct ps
     \<and> set ps = set (on_path_list m) \<and> linked m ps"

text \<open>A freshly loaded maze with the given state words.\<close>

definition mk_maze :: "int \<Rightarrow> int \<Rightarrow> cell list \<Rightarrow> Maze" where
  "mk_maze w h cells = \<lparr>width = w, height = h, poMazeData = Int32Array cells,
     visitOrder = Int32Array (replicate (length cells) (- 1)), thread_ownership = Map.empty\<rparr>"

text \<open>The tokens of a run and the cells it left marked ON_PATH.\<close>

definition run_summary :: "(token list \<times> Maze) option \<Rightarrow> (token list \<times> Position list) option" where
  "run_summary r = map_option (\<lambda>(toks, m). (toks, on_path_list m)) r"

definition run_summary_mt ::
  "(error + token list \<times> Maze) option \<Rightarrow> (error + token list \<times> Position list) option" where
  "run_summary_mt r = map_option (map_sum id (\<lambda>(toks, m). (toks, on_path_list m))) r"














text \<open>The open 3x3 grid.\<close>

definition maze_3x3_open :: Maze where
  "maze_3x3_open = mk_maze 3 3 [0, 0, 0, 0, 0, 0, 0, 0, 0]"

text \<open>C3 as stated fails: on the open 3x3 grid BFS finishes with visit order 4 at End, the
  discovery index of End, although Start, the centre and End are a path of three cells (two
  edges) between Start and End; and three cells are marked ON_PATH, not 4 + 1.\<close>

theorem BFS_visit_order_counterexample:
  "fst (the (BFSSolver_solve 9 maze_3x3_open))
     = [SEARCHING, SEARCHING, SEARCHING, SEARCHING, SEARCHING,
        BACKTRACKING, BACKTRACKING, BACKTRACKING, FINISHED]
   \<and> getVisitOrder (snd (the (BFSSolver_solve 9 maze_3x3_open))) (getEnd maze_3x3_open) = Some 4
   \<and> getStart maze_3x3_open = Position 0 1 \<and> getEnd maze_3x3_open = Position 2 1
   \<and> linked maze_3x3_open [Position 0 1, Position 1 1, Position 2 1]
   \<and> on_path_list (snd (the (BFSSolver_solve 9 maze_3x3_open)))
       = [Position 0 1, Position 1 1, Position 2 1]"
  by code_simp

text \<open>C9 fails for MT-M2: on the 1x1 maze BFS, DFS and MT-M1 end with FINISHED and mark the
  single cell, but MT-M2 yields SEARCHING, NO_SOLUTION and marks nothing. Walker 0 reports
  FOUND_TARGET from its first JUNCTION step, where \<^verbatim>\<open>target_pos\<close> is still \<^verbatim>\<open>null\<close>, so
  \<^verbatim>\<open>collision_pos\<close> stays \<^verbatim>\<open>null\<close> and the solver takes the NO_SOLUTION branch.\<close>

theorem solvers_on_1x1:
  "run_summary (BFSSolver_solve 3 maze_1x1)
     = Some ([SEARCHING, BACKTRACKING, FINISHED], [Position 0 0])
   \<and> run_summary (DFSSolver_solve 3 maze_1x1)
       = Some ([SEARCHING, BACKTRACKING, FINISHED], [Position 0 0])
   \<and> run_summary (MT_M1_solve 3 maze_1x1) = Some ([SEARCHING, FINISHED], [Position 0 0])
   \<and> run_summary_mt (MTSolver_solve 3 maze_1x1) = Some (Inr ([SEARCHING, NO_SOLUTION], []))"
  by code_simp

section \<open>The cell store under the updates of BFS and DFS\<close>

text \<open>The part of a state word that BFS and DFS read back: wall bits, ON_PATH and the parent
  bits.\<close>

definition view :: "cell \<Rightarrow> cell" where
  "view c = c AND 251"

definition c_par :: "cell \<Rightarrow> Direction" where
  "c_par c =
     (if c AND PARENT_NORTH \<noteq> 0 then North
      else if c AND PARENT_EAST \<noteq> 0 then East
      else if c AND PARENT_SOUTH \<noteq> 0 then South
      else if c AND PARENT_WEST \<noteq> 0 then West
      else Uninitialized)"

lemma getDirectionRouteBT_c_par: "getDirectionRouteBT m p = c_par (getCell m p)"
  by (simp add: getDirectionRouteBT_def c_par_def Let_def)

lemma view_bits:
  "c AND EAST_BIT = view c AND EAST_BIT" "c AND SOUTH_BIT = view c AND SOUTH_BIT"
  "c AND PATH_BIT = view c AND PATH_BIT" "c AND PARENT_NORTH = view c AND PARENT_NORTH"
  "c AND PARENT_EAST = view c AND PARENT_EAST" "c AND PARENT_SOUTH = view c AND PARENT_SOUTH"
  "c AND PARENT_WEST = view c AND PARENT_WEST"
  by (simp_all add: view_def InternalBit_defs and.assoc)

lemma c_par_view:
  assumes "view c = view c'"
  shows "c_par c = c_par c'"
proof -
  have "c AND PARENT_NORTH = c' AND PARENT_NORTH" "c AND PARENT_EAST = c' AND PARENT_EAST"
    "c AND PARENT_SOUTH = c' AND PARENT_SOUTH" "c AND PARENT_WEST = c' AND PARENT_WEST"
    using assms view_bits(4-7) [of c] view_bits(4-7) [of c'] by simp_all
  then show ?thesis by (simp add: c_par_def)
qed

definition set_parent :: "cell \<Rightarrow> Direction \<Rightarrow> cell" where
  "set_parent c d = ((c AND NOT PARENT_MASK) OR VISITED_BIT) OR parent_bit d"

lemma setDirectionRouteBT_setCell:
  "setDirectionRouteBT m p d = setCell m p (set_parent (getCell m p) d)"
  by (simp add: setDirectionRouteBT_def set_parent_def Let_def)

lemma c_par_set_parent [simp]: "c_par (set_parent c d) = d"
  by (cases d)
     (simp_all add: c_par_def set_parent_def parent_bit_def InternalBit_defs
        bit.conj_disj_distrib2 and.assoc)

lemma set_parent_walls_path:
  "set_parent c d AND EAST_BIT = c AND EAST_BIT" "set_parent c d AND SOUTH_BIT = c AND SOUTH_BIT"
  "set_parent c d AND PATH_BIT = c AND PATH_BIT"
  by (cases d; simp add: set_parent_def parent_bit_def InternalBit_defs
        bit.conj_disj_distrib2 and.assoc)+




subsection \<open>The cells of the grid\<close>

lemma set_all_cells: "set (all_cells m) = {p. in_grid m p}"
proof -
  have "p \<in> set (all_cells m) \<longleftrightarrow> in_grid m p" for p
  proof
    assume "p \<in> set (all_cells m)"
    then show "in_grid m p" by (auto simp: all_cells_def in_grid_def)
  next
    assume g: "in_grid m p"
    then have "p = Position (row p) (col p)" "row p \<in> {0..height m - 1}" "col p \<in> {0..width m - 1}"
      by (auto simp: in_grid_def)
    then show "p \<in> set (all_cells m)"
      unfolding all_cells_def by (metis (mono_tags, lifting) imageI set_concat set_map set_upto UN_I)
  qed
  then show ?thesis by auto
qed

lemma distinct_all_cells:
  assumes "0 < width m"
  shows "distinct (all_cells m)"
  unfolding all_cells_def
proof (rule distinct_concat)
  have "inj_on (\<lambda>r. map (Position r) [0..width m - 1]) (set [0..height m - 1])"
  proof (rule inj_onI)
    fix x y assume "map (Position x) [0..width m - 1] = map (Position y) [0..width m - 1]"
    moreover have "[0..width m - 1] = 0 # [1..width m - 1]"
      using assms by (simp add: upto.simps)
    ultimately show "x = y" by simp
  qed
  then show "distinct (map (\<lambda>r. map (Position r) [0..width m - 1]) [0..height m - 1])"
    by (simp add: distinct_map)
next
  fix ys assume "ys \<in> set (map (\<lambda>r. map (Position r) [0..width m - 1]) [0..height m - 1])"
  then show "distinct ys" by (auto simp: distinct_map inj_on_def)
next
  fix ys zs
  assume "ys \<in> set (map (\<lambda>r. map (Position r) [0..width m - 1]) [0..height m - 1])"
    and "zs \<in> set (map (\<lambda>r. map (Position r) [0..width m - 1]) [0..height m - 1])"
    and "ys \<noteq> zs"
  then show "set ys \<inter> set zs = {}" by auto
qed

lemma length_all_cells:
  assumes "0 < width m" and "0 < height m"
  shows "int (length (all_cells m)) = width m * height m"
proof -
  have "length (all_cells m) = sum_list (map (\<lambda>r. nat (width m)) [0..height m - 1])"
    using assms by (simp add: all_cells_def length_concat comp_def)
  also have "\<dots> = nat (width m) * nat (height m)"
    using assms by (simp add: sum_list_triv)
  finally show ?thesis using assms by (simp add: nat_mult_distrib)
qed


subsection \<open>Visited cells and the parent forest\<close>

definition visited :: "Maze \<Rightarrow> Position \<Rightarrow> bool" where
  "visited m p \<longleftrightarrow> getVisitOrder m p \<noteq> Some (- 1)"

definition unvisited_count :: "Maze \<Rightarrow> nat" where
  "unvisited_count m = length (filter (\<lambda>p. \<not> visited m p) (all_cells m))"

lemma filter_count_flip:
  "distinct xs \<Longrightarrow> p \<in> set xs \<Longrightarrow> P p \<Longrightarrow> \<not> P' p \<Longrightarrow>
   (\<And>q. q \<in> set xs \<Longrightarrow> q \<noteq> p \<Longrightarrow> P' q = P q) \<Longrightarrow>
     length (filter P xs) = Suc (length (filter P' xs))"
proof (induction xs)
  case Nil
  then show ?case by simp
next
  case (Cons x xs)
  show ?case
  proof (cases "x = p")
    case True
    with Cons.prems have "p \<notin> set xs" by simp
    with Cons.prems(5) have "filter P' xs = filter P xs"
      by (intro filter_cong) auto
    with True Cons.prems(3,4) show ?thesis by simp
  next
    case False
    with Cons.prems have "p \<in> set xs" "distinct xs" by auto
    from Cons.IH [OF this(2,1) Cons.prems(3,4)] Cons.prems(5)
    have "length (filter P xs) = Suc (length (filter P' xs))" by simp
    moreover from False Cons.prems(5) have "P' x = P x" by simp
    ultimately show ?thesis by simp
  qed
qed

text \<open>Two mazes with the same walls and dimensions have the same open edges.\<close>

lemma canMove_cong:
  assumes "width m' = width m" and "height m' = height m"
    and "\<And>q. getCell m' q AND 3 = getCell m q AND 3"
  shows "canMove m' p d = canMove m p d"
proof -
  have e: "getCell m' q AND EAST_BIT = getCell m q AND EAST_BIT"
    and s: "getCell m' q AND SOUTH_BIT = getCell m q AND SOUTH_BIT" for q
  proof -
    have "c AND EAST_BIT = (c AND 3) AND EAST_BIT" "c AND SOUTH_BIT = (c AND 3) AND SOUTH_BIT"
      for c :: cell
      by (simp_all add: InternalBit_defs and.assoc)
    with assms(3) [of q] show "getCell m' q AND EAST_BIT = getCell m q AND EAST_BIT"
      "getCell m' q AND SOUTH_BIT = getCell m q AND SOUTH_BIT"
      by metis+
  qed
  show ?thesis
    by (cases d) (simp_all add: hasFlag_def e s assms(1,2))
qed

lemma view_walls: "view c = view c' \<Longrightarrow> c AND 3 = c' AND 3"
proof -
  assume "view c = view c'"
  moreover have "x AND 3 = view x AND 3" for x :: cell
    by (simp add: view_def and.assoc)
  ultimately show ?thesis by metis
qed

lemma view_path: "view c = view c' \<Longrightarrow> c AND PATH_BIT = c' AND PATH_BIT"
  using view_bits(3) by metis

text \<open>A move along an open edge from a cell of the grid stays in the grid, and the edge is open
  from the other side.\<close>

lemma canMove_in_grid: "in_grid m p \<Longrightarrow> canMove m p d \<Longrightarrow> in_grid m (move p d)"
  by (cases d) (auto simp: in_grid_def split: if_splits)

lemma move_back: "d \<noteq> Uninitialized \<Longrightarrow> move (move p d) (reverseDir d) = p"
  by (cases d; cases p) simp_all

lemma canMove_back:
  assumes "in_grid m p" and "canMove m p d"
  shows "canMove m (move p d) (reverseDir d)"
proof -
  from assms have "in_grid m (move p d)" by (rule canMove_in_grid)
  with assms show ?thesis
    by (cases d; cases p) (auto simp: in_grid_def)
qed

section \<open>The search forest\<close>

text \<open>\<open>m'\<close> differs from \<open>m\<close> only in bits that BFS and DFS do not read back.\<close>

definition same_view :: "Maze \<Rightarrow> Maze \<Rightarrow> bool" where
  "same_view m m' \<longleftrightarrow> wf_maze m' \<and> width m' = width m \<and> height m' = height m
     \<and> visitOrder m' = visitOrder m \<and> (\<forall>q. view (getCell m' q) = view (getCell m q))"

text \<open>\<open>m'\<close> is \<open>m\<close> after the discovery of the cell \<open>p\<close> with visit order \<open>n\<close> and parent
  direction \<open>pd\<close>.\<close>

definition discovered :: "Maze \<Rightarrow> Position \<Rightarrow> Direction \<Rightarrow> int \<Rightarrow> Maze \<Rightarrow> bool" where
  "discovered m p pd n m' \<longleftrightarrow> wf_maze m' \<and> width m' = width m \<and> height m' = height m
     \<and> (\<forall>q. in_grid m q \<longrightarrow> getVisitOrder m' q = (if q = p then Some n else getVisitOrder m q))
     \<and> (\<forall>q. q \<noteq> p \<longrightarrow> view (getCell m' q) = view (getCell m q))
     \<and> c_par (getCell m' p) = pd
     \<and> getCell m' p AND 3 = getCell m p AND 3
     \<and> getCell m' p AND PATH_BIT = getCell m p AND PATH_BIT"

text \<open>The invariant of both searches: the walls of \<open>m0\<close>, no ON_PATH bit, and parent bits
  that lead every visited cell other than Start along an open edge to a visited cell one
  level nearer to Start; \<open>L\<close> gives the levels, and \<open>vc\<close> is the visit counter.\<close>

definition forest :: "Maze \<Rightarrow> (Position \<Rightarrow> nat) \<Rightarrow> Maze \<Rightarrow> int \<Rightarrow> bool" where
  "forest m0 L m vc \<longleftrightarrow> wf_maze m \<and> width m = width m0 \<and> height m = height m0
     \<and> width m * height m < 2 ^ 31
     \<and> (\<forall>p d. canMove m p d = canMove m0 p d)
     \<and> (\<forall>p. in_grid m p \<longrightarrow> getCell m p AND PATH_BIT = 0)
     \<and> visited m (getStart m) \<and> L (getStart m) = 0
     \<and> (\<forall>p. in_grid m p \<and> visited m p \<and> p \<noteq> getStart m \<longrightarrow>
           c_par (getCell m p) \<noteq> Uninitialized \<and> canMove m p (c_par (getCell m p))
           \<and> visited m (move p (c_par (getCell m p)))
           \<and> L p = Suc (L (move p (c_par (getCell m p)))))
     \<and> (\<forall>p. in_grid m p \<and> visited m p \<longrightarrow>
           (\<exists>v. getVisitOrder m p = Some v \<and> int (L p) \<le> v \<and> v < vc))
     \<and> vc + int (unvisited_count m) = width m * height m"

lemma in_grid_cong: "width m' = width m \<Longrightarrow> height m' = height m \<Longrightarrow> in_grid m' p = in_grid m p"
  by (simp add: in_grid_def)

lemma all_cells_cong: "width m' = width m \<Longrightarrow> height m' = height m \<Longrightarrow> all_cells m' = all_cells m"
  by (simp add: all_cells_def)

lemma getStart_cong: "width m' = width m \<Longrightarrow> getStart m' = getStart m"
  by (simp add: getStart_def)

lemma getVisitOrder_cong:
  "width m' = width m \<Longrightarrow> visitOrder m' = visitOrder m \<Longrightarrow> getVisitOrder m' p = getVisitOrder m p"
  by (simp add: getVisitOrder_def cellIndex_def)


lemma same_view_refl: "wf_maze m \<Longrightarrow> same_view m m"
  by (simp add: same_view_def)







lemma to_int32_id: "0 \<le> x \<Longrightarrow> x < 2 ^ 31 \<Longrightarrow> to_int32 x = x"
  by (simp add: to_int32_def)

lemma forest_discovered:
  assumes f: "forest m0 L m vc" and dr: "discovered m np (reverseDir d) vc m'"
    and cur: "in_grid m cur" "visited m cur" and mv: "canMove m cur d" "np = move cur d"
    and un: "\<not> visited m np"
  shows "forest m0 (L(np := Suc (L cur))) m' (vc + 1)"
proof -
  from dr have d: "width m' = width m" "height m' = height m" and wf': "wf_maze m'"
    and vo: "\<And>q. in_grid m q \<Longrightarrow> getVisitOrder m' q = (if q = np then Some vc else getVisitOrder m q)"
    and v: "\<And>q. q \<noteq> np \<Longrightarrow> view (getCell m' q) = view (getCell m q)"
    and par_np: "c_par (getCell m' np) = reverseDir d"
    and walls_np: "getCell m' np AND 3 = getCell m np AND 3"
    and path_np: "getCell m' np AND PATH_BIT = getCell m np AND PATH_BIT"
    by (auto simp: discovered_def)
  from f have wf: "wf_maze m" and d0: "width m = width m0" "height m = height m0"
    and small: "width m * height m < 2 ^ 31"
    and cm0: "\<And>p dd. canMove m p dd = canMove m0 p dd"
    and nopath: "\<And>p. in_grid m p \<Longrightarrow> getCell m p AND PATH_BIT = 0"
    and st: "visited m (getStart m)" "L (getStart m) = 0"
    and tree: "\<And>p. in_grid m p \<Longrightarrow> visited m p \<Longrightarrow> p \<noteq> getStart m \<Longrightarrow>
           c_par (getCell m p) \<noteq> Uninitialized \<and> canMove m p (c_par (getCell m p))
           \<and> visited m (move p (c_par (getCell m p)))
           \<and> L p = Suc (L (move p (c_par (getCell m p))))"
    and lev0: "\<And>p. in_grid m p \<Longrightarrow> visited m p \<Longrightarrow>
           \<exists>v. getVisitOrder m p = Some v \<and> int (L p) \<le> v \<and> v < vc"
    and cnt: "vc + int (unvisited_count m) = width m * height m"
    by (auto simp: forest_def)
  have lev: "int (L p) < vc" if "in_grid m p" "visited m p" for p
    using lev0 [OF that] by auto
  have g: "in_grid m' p = in_grid m p" for p by (rule in_grid_cong [OF d])
  have start: "getStart m' = getStart m" by (rule getStart_cong [OF d(1)])
  have npg: "in_grid m np" using cur(1) mv by (auto intro: canMove_in_grid)
  have dU: "d \<noteq> Uninitialized" using mv(1) by (cases d) auto
  have vc_pos: "0 < vc" using lev [OF cur] by linarith
  have vc_ne: "vc \<noteq> - 1" using vc_pos by simp
  have vis: "visited m' p = (p = np \<or> visited m p)" if "in_grid m p" for p
    using vo [OF that] vc_ne by (simp add: visited_def)
  have walls: "getCell m' q AND 3 = getCell m q AND 3" for q
    using walls_np view_walls [OF v] by (cases "q = np") auto
  have cm: "canMove m' p dd = canMove m p dd" for p dd
    by (rule canMove_cong [OF d walls])
  have pth: "getCell m' p AND PATH_BIT = 0" if "in_grid m p" for p
    using path_np view_path [OF v, of p] nopath [OF that] by (cases "p = np") auto
  have np_start: "np \<noteq> getStart m" using un st(1) by auto
  have cur_np: "cur \<noteq> np" using un cur(2) by auto
  let ?L = "L(np := Suc (L cur))"
  have tree': "c_par (getCell m' p) \<noteq> Uninitialized \<and> canMove m' p (c_par (getCell m' p))
           \<and> visited m' (move p (c_par (getCell m' p)))
           \<and> ?L p = Suc (?L (move p (c_par (getCell m' p))))"
    if p: "in_grid m p" "visited m' p" "p \<noteq> getStart m" for p
  proof (cases "p = np")
    case True
    have bk: "move np (reverseDir d) = cur" using mv(2) dU by (simp add: move_back)
    have "canMove m np (reverseDir d)" using canMove_back [OF cur(1) mv(1)] mv(2) by simp
    moreover have "reverseDir d \<noteq> Uninitialized" using dU by (cases d) auto
    moreover have "visited m' cur" using vis [OF cur(1)] cur(2) by simp
    ultimately show ?thesis
      using True par_np bk cur_np by (simp add: cm)
  next
    case False
    with p vis [OF p(1)] have pv: "visited m p" by simp
    from tree [OF p(1) pv p(3)] have t: "c_par (getCell m p) \<noteq> Uninitialized"
      "canMove m p (c_par (getCell m p))" "visited m (move p (c_par (getCell m p)))"
      "L p = Suc (L (move p (c_par (getCell m p))))"
      by simp_all
    have pe: "c_par (getCell m' p) = c_par (getCell m p)"
      by (rule c_par_view [OF v [OF False]])
    have pg: "in_grid m (move p (c_par (getCell m p)))"
      using canMove_in_grid [OF p(1) t(2)] .
    have "move p (c_par (getCell m p)) \<noteq> np" using t(3) un by auto
    with t False vis [OF pg] show ?thesis by (simp add: pe cm)
  qed
  have lev': "\<exists>v. getVisitOrder m' p = Some v \<and> int (?L p) \<le> v \<and> v < vc + 1"
    if p: "in_grid m p" "visited m' p" for p
  proof (cases "p = np")
    case True
    with lev [OF cur] vo [OF npg] show ?thesis by simp
  next
    case False
    with p vis [OF p(1)] have "visited m p" by simp
    from lev0 [OF p(1) this] False vo [OF p(1)] show ?thesis by auto
  qed
  have uc: "unvisited_count m = Suc (unvisited_count m')"
    unfolding unvisited_count_def all_cells_cong [OF d]
  proof (rule filter_count_flip)
    show "distinct (all_cells m)" using wf by (simp add: distinct_all_cells wf_maze_def)
    show "np \<in> set (all_cells m)" using npg by (simp add: set_all_cells)
    show "\<not> visited m np" by (rule un)
    show "\<not> \<not> visited m' np" using vis [OF npg] by simp
    show "(\<not> visited m' q) = (\<not> visited m q)" if "q \<in> set (all_cells m)" "q \<noteq> np" for q
      using that vis [of q] by (simp add: set_all_cells)
  qed
  have st': "visited m' (getStart m)" "?L (getStart m) = 0"
  proof -
    have "width m div 2 < width m" "0 \<le> width m div 2" using wf by (auto simp: wf_maze_def)
    then have "in_grid m (getStart m)" using wf by (simp add: getStart_def in_grid_def wf_maze_def)
    with vis st(1) show "visited m' (getStart m)" by simp
    show "?L (getStart m) = 0" using np_start st(2) by simp
  qed
  show ?thesis
    unfolding forest_def g start d
    using wf' d0 small cm cm0 pth st' tree' lev' uc cnt by simp
qed

lemma child_parent_reverseDir: "child_parent d = reverseDir d"
  by (cases d) (simp_all add: child_parent_def)

lemma unvisited_pos:
  assumes "wf_maze m" and "in_grid m p" and "\<not> visited m p"
  shows "0 < unvisited_count m"
proof -
  have "p \<in> set (filter (\<lambda>p. \<not> visited m p) (all_cells m))"
    using assms by (simp add: set_all_cells)
  then have "0 < length (filter (\<lambda>p. \<not> visited m p) (all_cells m))"
    by (rule length_pos_if_in_set)
  then show ?thesis by (simp add: unvisited_count_def)
qed

lemma forest_vc_range:
  assumes f: "forest m0 L m vc" and p: "in_grid m p" "\<not> visited m p"
  shows "0 \<le> vc \<and> vc < 2 ^ 31"
proof -
  from f have wf: "wf_maze m" and small: "width m * height m < 2 ^ 31"
    and cnt: "vc + int (unvisited_count m) = width m * height m"
    and st: "visited m (getStart m)"
    and lev: "\<And>p. in_grid m p \<Longrightarrow> visited m p \<Longrightarrow>
           \<exists>v. getVisitOrder m p = Some v \<and> int (L p) \<le> v \<and> v < vc"
    by (auto simp: forest_def)
  have "width m div 2 < width m" "0 \<le> width m div 2" using wf by (auto simp: wf_maze_def)
  then have "in_grid m (getStart m)" using wf by (simp add: getStart_def in_grid_def wf_maze_def)
  from lev [OF this st] have "0 < vc" by auto
  moreover have "0 < unvisited_count m" by (rule unvisited_pos [OF wf p])
  ultimately show ?thesis using cnt small by linarith
qed

lemma discovered_bfs:
  assumes wf: "wf_maze m" and p: "in_grid m p" and n: "0 \<le> n" "n < 2 ^ 31"
  shows "discovered m p d n (setVisitOrder (setDirectionRouteBT m p d) p n)"
proof -
  let ?m1 = "setCell m p (set_parent (getCell m p) d)"
  have wf1: "wf_maze ?m1" using wf by simp
  have p1: "in_grid ?m1 p" using p by simp
  have vo: "getVisitOrder (setVisitOrder ?m1 p n) q = (if q = p then Some n else getVisitOrder m q)"
    if "in_grid m q" for q
    using getVisitOrder_setVisitOrder [OF wf1 p1, of q n] that n by (simp add: to_int32_id)
  have gc: "getCell ?m1 q = (if q = p then set_parent (getCell m p) d else getCell m q)" for q
    by (rule getCell_setCell [OF wf p])
  have w3: "set_parent c d AND 3 = c AND 3" for c
  proof -
    have "set_parent c d AND 3 = (set_parent c d AND EAST_BIT) OR (set_parent c d AND SOUTH_BIT)"
      by (simp add: InternalBit_defs flip: bit.conj_disj_distrib)
    also have "\<dots> = (c AND EAST_BIT) OR (c AND SOUTH_BIT)" by (simp add: set_parent_walls_path)
    also have "\<dots> = c AND 3" by (simp add: InternalBit_defs flip: bit.conj_disj_distrib)
    finally show ?thesis .
  qed
  show ?thesis
    unfolding discovered_def setDirectionRouteBT_setCell
    using wf vo by (simp add: gc w3 set_parent_walls_path)
qed



section \<open>The reconstruction of the path\<close>

text \<open>The cell \<open>p\<close> followed by its \<open>k\<close> ancestors along the parent bits.\<close>

fun up_chain :: "Maze \<Rightarrow> nat \<Rightarrow> Position \<Rightarrow> Position list" where
  "up_chain m 0 p = [p]"
| "up_chain m (Suc k) p = p # up_chain m k (move p (getDirectionRouteBT m p))"

text \<open>\<open>m\<close> is \<open>mc\<close> with ON_PATH set on the cells of \<open>S\<close>.\<close>

definition painted :: "Maze \<Rightarrow> Position set \<Rightarrow> Maze \<Rightarrow> bool" where
  "painted mc S m \<longleftrightarrow> wf_maze m \<and> width m = width mc \<and> height m = height mc
     \<and> visitOrder m = visitOrder mc
     \<and> (\<forall>q. getCell m q = (if q \<in> S \<and> in_grid mc q then getCell mc q OR PATH_BIT else getCell mc q))"

lemma painted_refl: "wf_maze mc \<Longrightarrow> painted mc {} mc"
  by (simp add: painted_def)

lemma painted_markPath:
  assumes pt: "painted mc S m" and p: "in_grid mc p"
  shows "painted mc (insert p S) (markPath m p)"
proof -
  from pt have wf: "wf_maze m" and d: "width m = width mc" "height m = height mc"
    and gc: "\<And>q. getCell m q = (if q \<in> S \<and> in_grid mc q then getCell mc q OR PATH_BIT else getCell mc q)"
    and vo: "visitOrder m = visitOrder mc"
    by (auto simp: painted_def)
  have pm: "in_grid m p" using p by (simp add: in_grid_cong [OF d])
  have "getCell (markPath m p) q
      = (if q \<in> insert p S \<and> in_grid mc q then getCell mc q OR PATH_BIT else getCell mc q)" for q
    unfolding markPath_def setFlag_def getCell_setCell [OF wf pm]
    using p by (auto simp: gc or.assoc)
  then show ?thesis
    unfolding painted_def using wf d vo by (simp add: markPath_def setFlag_def)
qed

lemma c_par_OR_PATH: "c_par (c OR PATH_BIT) = c_par c"
  by (simp add: c_par_def InternalBit_defs bit.conj_disj_distrib2)

lemma mark_back_painted:
  assumes f: "forest m0 L mc vc"
  shows "painted mc S m \<Longrightarrow> in_grid mc cur \<Longrightarrow> visited mc cur \<Longrightarrow> L cur < n \<Longrightarrow>
    \<exists>m'. mark_back n m (getStart mc) cur = Some (replicate (Suc (L cur)) BACKTRACKING, m')
       \<and> painted mc (S \<union> set (up_chain mc (L cur) cur)) m'"
proof (induction n arbitrary: m cur S)
  case 0
  then show ?case by simp
next
  case (Suc n)
  from f have st: "L (getStart mc) = 0"
    and tree: "\<And>p. in_grid mc p \<Longrightarrow> visited mc p \<Longrightarrow> p \<noteq> getStart mc \<Longrightarrow>
           c_par (getCell mc p) \<noteq> Uninitialized \<and> canMove mc p (c_par (getCell mc p))
           \<and> visited mc (move p (c_par (getCell mc p)))
           \<and> L p = Suc (L (move p (c_par (getCell mc p))))"
    by (auto simp: forest_def)
  have pt': "painted mc (insert cur S) (markPath m cur)"
    by (rule painted_markPath [OF Suc.prems(1,2)])
  show ?case
  proof (cases "cur = getStart mc")
    case True
    with st pt' show ?thesis by simp
  next
    case False
    let ?d = "c_par (getCell mc cur)"
    from tree [OF Suc.prems(2,3) False] have t: "?d \<noteq> Uninitialized" "canMove mc cur ?d"
      "visited mc (move cur ?d)" "L cur = Suc (L (move cur ?d))"
      by simp_all
    from pt' have "getCell (markPath m cur) cur = getCell mc cur OR PATH_BIT"
      using Suc.prems(2) by (simp add: painted_def)
    then have dir: "getDirectionRouteBT (markPath m cur) cur = ?d"
      by (simp add: getDirectionRouteBT_c_par c_par_OR_PATH)
    have pg: "in_grid mc (move cur ?d)" by (rule canMove_in_grid [OF Suc.prems(2) t(2)])
    have "L (move cur ?d) < n" using t(4) Suc.prems(4) by simp
    from Suc.IH [OF pt' pg t(3) this] obtain m' where
      r: "mark_back n (markPath m cur) (getStart mc) (move cur ?d)
            = Some (replicate (Suc (L (move cur ?d))) BACKTRACKING, m')"
      and p: "painted mc (insert cur S \<union> set (up_chain mc (L (move cur ?d)) (move cur ?d))) m'"
      by blast
    have "up_chain mc (L cur) cur = cur # up_chain mc (L (move cur ?d)) (move cur ?d)"
      by (simp add: t(4) getDirectionRouteBT_c_par)
    then have "S \<union> set (up_chain mc (L cur) cur)
        = insert cur S \<union> set (up_chain mc (L (move cur ?d)) (move cur ?d))"
      by simp
    with p have "painted mc (S \<union> set (up_chain mc (L cur) cur)) m'" by simp
    moreover have "mark_back (Suc n) m (getStart mc) cur
        = Some (replicate (Suc (L cur)) BACKTRACKING, m')"
      using False t(1) by (simp add: dir r t(4))
    ultimately show ?thesis by blast
  qed
qed

lemma linked_snoc:
  "linked m (xs @ [a]) \<Longrightarrow> open_edge m a b \<Longrightarrow> linked m (xs @ [a, b])"
  by (induction m xs rule: linked.induct) (auto split: list.splits)

lemma open_edge_parent:
  assumes "in_grid m p" and "canMove m p d"
  shows "open_edge m (move p d) p"
proof -
  have dU: "d \<noteq> Uninitialized" using assms(2) by (cases d) auto
  have "canMove m (move p d) (reverseDir d)" by (rule canMove_back [OF assms])
  moreover have "move (move p d) (reverseDir d) = p" by (rule move_back [OF dU])
  moreover have "reverseDir d \<in> set cardinal" using dU by (cases d) (simp_all add: cardinal_def)
  ultimately show ?thesis unfolding open_edge_def by blast
qed

lemma up_chain_props:
  assumes f: "forest m0 L mc vc"
  shows "in_grid mc p \<Longrightarrow> visited mc p \<Longrightarrow> L p = k \<Longrightarrow>
    (\<forall>q \<in> set (up_chain mc k p). in_grid mc q \<and> L q \<le> k)
    \<and> hd (up_chain mc k p) = p \<and> last (up_chain mc k p) = getStart mc
    \<and> distinct (up_chain mc k p) \<and> linked mc (rev (up_chain mc k p))
    \<and> length (up_chain mc k p) = Suc k"
proof (induction k arbitrary: p)
  case 0
  from f have tree: "\<And>p. in_grid mc p \<Longrightarrow> visited mc p \<Longrightarrow> p \<noteq> getStart mc \<Longrightarrow>
           L p = Suc (L (move p (c_par (getCell mc p))))"
    by (auto simp: forest_def)
  from tree [OF 0(1,2)] 0(3) have "p = getStart mc" by auto
  with 0 show ?case by simp
next
  case (Suc k)
  from f have st: "L (getStart mc) = 0"
    and tree: "\<And>p. in_grid mc p \<Longrightarrow> visited mc p \<Longrightarrow> p \<noteq> getStart mc \<Longrightarrow>
           c_par (getCell mc p) \<noteq> Uninitialized \<and> canMove mc p (c_par (getCell mc p))
           \<and> visited mc (move p (c_par (getCell mc p)))
           \<and> L p = Suc (L (move p (c_par (getCell mc p))))"
    by (auto simp: forest_def)
  let ?d = "c_par (getCell mc p)"
  let ?q = "move p ?d"
  have ns: "p \<noteq> getStart mc" using st Suc.prems(3) by auto
  from tree [OF Suc.prems(1,2) ns] have t: "canMove mc p ?d" "visited mc ?q" "L p = Suc (L ?q)"
    by simp_all
  have qg: "in_grid mc ?q" by (rule canMove_in_grid [OF Suc.prems(1) t(1)])
  have lq: "L ?q = k" using t(3) Suc.prems(3) by simp
  let ?ps = "up_chain mc k ?q"
  from Suc.IH [OF qg t(2) lq] have ih: "\<forall>q \<in> set ?ps. in_grid mc q \<and> L q \<le> k"
    "hd ?ps = ?q" "last ?ps = getStart mc" "distinct ?ps" "linked mc (rev ?ps)"
    "length ?ps = Suc k"
    by simp_all
  have ne: "?ps \<noteq> []" using ih(6) by auto
  have uc: "up_chain mc (Suc k) p = p # ?ps" by (simp add: getDirectionRouteBT_c_par)
  have notin: "p \<notin> set ?ps" using ih(1) Suc.prems(3) by auto
  have "rev ?ps = butlast (rev ?ps) @ [?q]"
    using ne ih(2) by (metis append_butlast_last_id last_rev rev_is_Nil_conv)
  then obtain xs where xs: "rev ?ps = xs @ [?q]" by blast
  have "linked mc (xs @ [?q, p])"
    using ih(5) open_edge_parent [OF Suc.prems(1) t(1)] unfolding xs by (rule linked_snoc)
  then have lk: "linked mc (rev (p # ?ps))" by (simp add: xs)
  show ?case
    unfolding uc using ih ne notin lk Suc.prems(1,3) by auto
qed

section \<open>The breadth-first search\<close>

lemma discovered_facts:
  assumes "discovered m np pd n m'" and "n \<noteq> - 1"
  shows "in_grid m' p = in_grid m p"
    and "in_grid m p \<Longrightarrow> visited m' p \<longleftrightarrow> p = np \<or> visited m p"
    and "canMove m' p d = canMove m p d"
    and "wf_maze m'"
proof -
  from assms(1) have d: "width m' = width m" "height m' = height m" and wf': "wf_maze m'"
    and vo: "\<And>q. in_grid m q \<Longrightarrow> getVisitOrder m' q = (if q = np then Some n else getVisitOrder m q)"
    and v: "\<And>q. q \<noteq> np \<Longrightarrow> view (getCell m' q) = view (getCell m q)"
    and walls_np: "getCell m' np AND 3 = getCell m np AND 3"
    by (auto simp: discovered_def)
  show "in_grid m' p = in_grid m p" by (rule in_grid_cong [OF d])
  show "visited m' p \<longleftrightarrow> p = np \<or> visited m p" if "in_grid m p"
    using vo [OF that] assms(2) by (simp add: visited_def)
  have walls: "getCell m' q AND 3 = getCell m q AND 3" for q
    using walls_np view_walls [OF v] by (cases "q = np") auto
  show "canMove m' p d = canMove m p d" by (rule canMove_cong [OF d walls])
  show "wf_maze m'" by (rule wf')
qed

text \<open>The invariant of the BFS loop for the queue \<open>q\<close> and the goal \<open>e\<close>: the queue holds
  visited cells in the order of their levels, no visited cell is more than one level beyond
  the head of the queue, every neighbour of a visited cell that has left the queue is visited
  and at most one level beyond it, and the goal has not left the queue.\<close>

definition bfs_inv ::
  "Maze \<Rightarrow> Position \<Rightarrow> (Position \<Rightarrow> nat) \<Rightarrow> Maze \<Rightarrow> int \<Rightarrow> Position list \<Rightarrow> bool" where
  "bfs_inv m0 e L m vc q \<longleftrightarrow> forest m0 L m vc
     \<and> (\<forall>p \<in> set q. in_grid m p \<and> visited m p)
     \<and> sorted (map L q)
     \<and> (\<forall>p. in_grid m p \<and> visited m p \<and> q \<noteq> [] \<longrightarrow> L p \<le> Suc (L (hd q)))
     \<and> (\<forall>p d. in_grid m p \<and> visited m p \<and> p \<notin> set q \<and> canMove m p d \<longrightarrow>
           visited m (move p d) \<and> L (move p d) \<le> Suc (L p))
     \<and> (in_grid m e \<and> visited m e \<longrightarrow> e \<in> set q)"

lemma bfs_inv_discover:
  assumes inv: "bfs_inv m0 e L m vc (cur # q)"
    and dr: "discovered m np (reverseDir d) vc m'"
    and mv: "canMove m cur d" "np = move cur d"
    and un: "\<not> visited m np"
  shows "bfs_inv m0 e (L(np := Suc (L cur))) m' (vc + 1) (cur # q @ [np])"
proof -
  from inv have f: "forest m0 L m vc"
    and qv: "\<And>p. p \<in> set (cur # q) \<Longrightarrow> in_grid m p \<and> visited m p"
    and srt: "sorted (map L (cur # q))"
    and near: "\<And>p. in_grid m p \<Longrightarrow> visited m p \<Longrightarrow> L p \<le> Suc (L cur)"
    and closed: "\<And>p d. in_grid m p \<Longrightarrow> visited m p \<Longrightarrow> p \<notin> set (cur # q) \<Longrightarrow> canMove m p d \<Longrightarrow>
           visited m (move p d) \<and> L (move p d) \<le> Suc (L p)"
    and goal: "in_grid m e \<Longrightarrow> visited m e \<Longrightarrow> e \<in> set (cur # q)"
    by (auto simp: bfs_inv_def)
  have cur: "in_grid m cur" "visited m cur" using qv [of cur] by simp_all
  have npg: "in_grid m np" using cur(1) mv by (auto intro: canMove_in_grid)
  from f cur have "0 < vc" by (auto simp: forest_def)
  then have vcn: "vc \<noteq> - 1" by simp
  note df = discovered_facts [OF dr vcn]
  let ?L = "L(np := Suc (L cur))"
  have f': "forest m0 ?L m' (vc + 1)"
    by (rule forest_discovered [OF f dr cur mv un])
  have npq: "np \<notin> set (cur # q)" using qv un by blast
  have Lq: "?L p = L p" if "p \<in> set (cur # q)" for p using that npq by auto
  have qv': "in_grid m' p \<and> visited m' p" if "p \<in> set (cur # q @ [np])" for p
  proof (cases "p = np")
    case True
    with npg show ?thesis by (simp add: df(1) df(2))
  next
    case False
    with that have "p \<in> set (cur # q)" by auto
    from qv [OF this] show ?thesis by (simp add: df(1) df(2))
  qed
  have "map ?L (cur # q) = map L (cur # q)"
    by (rule map_cong [OF refl]) (rule Lq)
  then have m1: "map ?L (cur # q @ [np]) = map L (cur # q) @ [Suc (L cur)]" by simp
  have srt': "sorted (map ?L (cur # q @ [np]))"
    unfolding m1 sorted_append using srt near qv by auto
  have near': "?L p \<le> Suc (?L (hd (cur # q @ [np])))" if "in_grid m' p" "visited m' p" for p
  proof (cases "p = np")
    case True
    with npq show ?thesis by auto
  next
    case False
    with that have "in_grid m p" "visited m p" by (simp_all add: df(1) df(2))
    from near [OF this] False npq show ?thesis by auto
  qed
  have closed': "visited m' (move p d') \<and> ?L (move p d') \<le> Suc (?L p)"
    if "in_grid m' p" "visited m' p" "p \<notin> set (cur # q @ [np])" "canMove m' p d'" for p d'
  proof -
    from that have p: "in_grid m p" "p \<noteq> np" "p \<notin> set (cur # q)" "canMove m p d'"
      by (simp_all add: df(1) df(3))
    with that(2) have pv: "visited m p" by (simp add: df(2))
    from closed [OF p(1) pv p(3,4)] have c: "visited m (move p d')" "L (move p d') \<le> Suc (L p)"
      by simp_all
    have g: "in_grid m (move p d')" by (rule canMove_in_grid [OF p(1,4)])
    have "move p d' \<noteq> np" using c(1) un by auto
    with c g p(2) show ?thesis by (simp add: df(2))
  qed
  have goal': "e \<in> set (cur # q @ [np])" if "in_grid m' e" "visited m' e"
  proof (cases "e = np")
    case True
    then show ?thesis by simp
  next
    case False
    with that have "in_grid m e" "visited m e" by (simp_all add: df(1) df(2))
    from goal [OF this] show ?thesis by auto
  qed
  show ?thesis
    unfolding bfs_inv_def using f' qv' srt' near' closed' goal' by blast
qed


lemma bfs_inv_close:
  assumes inv: "bfs_inv m0 e L m vc (cur # q)" and ne: "cur \<noteq> e"
    and nb: "\<And>d. canMove m cur d \<Longrightarrow> visited m (move cur d)"
  shows "bfs_inv m0 e L m vc q"
proof -
  from inv have f: "forest m0 L m vc"
    and qv: "\<And>p. p \<in> set (cur # q) \<Longrightarrow> in_grid m p \<and> visited m p"
    and srt: "sorted (map L (cur # q))"
    and near: "\<And>p. in_grid m p \<Longrightarrow> visited m p \<Longrightarrow> L p \<le> Suc (L cur)"
    and closed: "\<And>p d. in_grid m p \<Longrightarrow> visited m p \<Longrightarrow> p \<notin> set (cur # q) \<Longrightarrow> canMove m p d \<Longrightarrow>
           visited m (move p d) \<and> L (move p d) \<le> Suc (L p)"
    and goal: "in_grid m e \<Longrightarrow> visited m e \<Longrightarrow> e \<in> set (cur # q)"
    by (auto simp: bfs_inv_def)
  have cur: "in_grid m cur" using qv [of cur] by simp
  have near': "L p \<le> Suc (L (hd q))" if "in_grid m p" "visited m p" "q \<noteq> []" for p
  proof -
    from that(3) srt have "L cur \<le> L (hd q)" by (cases q) auto
    with near [OF that(1,2)] show ?thesis by simp
  qed
  have closed': "visited m (move p d) \<and> L (move p d) \<le> Suc (L p)"
    if "in_grid m p" "visited m p" "p \<notin> set q" "canMove m p d" for p d
  proof (cases "p = cur")
    case True
    have g: "in_grid m (move cur d)" using canMove_in_grid [OF cur] that(4) True by simp
    have v: "visited m (move cur d)" using nb that(4) True by simp
    from near [OF g v] v True show ?thesis by simp
  next
    case False
    with that(3) have "p \<notin> set (cur # q)" by simp
    from closed [OF that(1,2) this that(4)] show ?thesis .
  qed
  have goal': "e \<in> set q" if "in_grid m e" "visited m e"
    using goal [OF that] ne by simp
  have srt': "sorted (map L q)" using srt by simp
  show ?thesis
    unfolding bfs_inv_def using f qv srt' near' closed' goal' by auto
qed

lemma forest_canMove: "forest m0 L m vc \<Longrightarrow> canMove m p d = canMove m0 p d"
  by (simp add: forest_def)

lemma forest_unvisited:
  "forest m0 L m vc \<Longrightarrow> int (unvisited_count m) = width m0 * height m0 - vc"
  by (auto simp: forest_def)

lemma bfs_inv_forest: "bfs_inv m0 e L m vc q \<Longrightarrow> forest m0 L m vc"
  by (simp add: bfs_inv_def)

lemma bfs_expand_inv:
  assumes "bfs_inv m0 e L m vc (cur # q)"
  shows "\<exists>L' m' q' vc'. bfs_expand ds m cur q vc = (m', q', vc')
     \<and> bfs_inv m0 e L' m' vc' (cur # q')
     \<and> (\<forall>d \<in> set ds. canMove m cur d \<longrightarrow> visited m' (move cur d))
     \<and> (\<forall>p. in_grid m p \<and> visited m p \<longrightarrow> visited m' p)
     \<and> int (length q') - int (length q) = vc' - vc \<and> vc \<le> vc'"
  using assms
proof (induction ds arbitrary: L m q vc)
  case Nil
  then show ?case by (auto simp: bfs_expand.simps)
next
  case (Cons d ds)
  note inv = Cons.prems
  have f: "forest m0 L m vc" by (rule bfs_inv_forest [OF inv])
  from inv have cur: "in_grid m cur" "visited m cur" by (auto simp: bfs_inv_def)
  let ?np = "move cur d"
  show ?case
  proof (cases "canMove m cur d \<and> \<not> visited m ?np")
    case True
    then have cm: "canMove m cur d" and un: "\<not> visited m ?np" by simp_all
    have npg: "in_grid m ?np" by (rule canMove_in_grid [OF cur(1) cm])
    have wf: "wf_maze m" using f by (simp add: forest_def)
    from forest_vc_range [OF f npg un] have vr: "0 \<le> vc" "vc < 2 ^ 31" by simp_all
    let ?m1 = "setVisitOrder (setDirectionRouteBT m ?np (child_parent d)) ?np vc"
    have dr: "discovered m ?np (reverseDir d) vc ?m1"
      unfolding child_parent_reverseDir by (rule discovered_bfs [OF wf npg vr])
    have vcn: "vc \<noteq> - 1" using vr by simp
    note df = discovered_facts [OF dr vcn]
    have inv1: "bfs_inv m0 e (L(?np := Suc (L cur))) ?m1 (vc + 1) (cur # q @ [?np])"
      by (rule bfs_inv_discover [OF inv dr cm refl un])
    from Cons.IH [OF inv1] obtain L' m' q' vc' where
      r: "bfs_expand ds ?m1 cur (q @ [?np]) (vc + 1) = (m', q', vc')"
      and i: "bfs_inv m0 e L' m' vc' (cur # q')"
      and n: "\<And>d. d \<in> set ds \<Longrightarrow> canMove ?m1 cur d \<Longrightarrow> visited m' (move cur d)"
      and mono: "\<And>p. in_grid ?m1 p \<Longrightarrow> visited ?m1 p \<Longrightarrow> visited m' p"
      and len: "int (length q') - int (length (q @ [?np])) = vc' - (vc + 1)" "vc + 1 \<le> vc'"
      by blast
    have e: "bfs_expand (d # ds) m cur q vc = (m', q', vc')"
      using True r by (simp add: bfs_expand.simps visited_def Let_def)
    have g1: "in_grid ?m1 p" if "in_grid m p" for p
      by (subst df(1)) (rule that)
    have v1: "visited ?m1 p" if "in_grid m p" "p = ?np \<or> visited m p" for p
      by (subst df(2) [OF that(1)]) (rule that(2))
    have n': "visited m' (move cur d')" if "d' \<in> set (d # ds)" "canMove m cur d'" for d'
    proof (cases "d' = d")
      case True
      have "visited m' ?np" by (rule mono [OF g1 v1]) (simp_all add: npg)
      with True show ?thesis by simp
    next
      case False
      have "canMove ?m1 cur d'" by (subst df(3)) (rule that(2))
      with False that(1) n [of d'] show ?thesis by simp
    qed
    have mono': "visited m' p" if "in_grid m p" "visited m p" for p
      by (rule mono [OF g1 v1]) (simp_all add: that)
    show ?thesis
      using e i n' mono' len by (intro exI [of _ L'] exI [of _ m'] exI [of _ q'] exI [of _ vc']) auto
  next
    case False
    from Cons.IH [OF inv] obtain L' m' q' vc' where
      r: "bfs_expand ds m cur q vc = (m', q', vc')"
      and i: "bfs_inv m0 e L' m' vc' (cur # q')"
      and n: "\<And>d. d \<in> set ds \<Longrightarrow> canMove m cur d \<Longrightarrow> visited m' (move cur d)"
      and mono: "\<And>p. in_grid m p \<Longrightarrow> visited m p \<Longrightarrow> visited m' p"
      and len: "int (length q') - int (length q) = vc' - vc" "vc \<le> vc'"
      by blast
    have e: "bfs_expand (d # ds) m cur q vc = (m', q', vc')"
      using False r by (auto simp: bfs_expand.simps visited_def Let_def)
    have n': "visited m' (move cur d')" if "d' \<in> set (d # ds)" "canMove m cur d'" for d'
    proof (cases "d' = d")
      case True
      with that(2) False have "visited m ?np" by simp
      moreover have "in_grid m ?np" using canMove_in_grid [OF cur(1)] that(2) True by simp
      ultimately show ?thesis using mono True by simp
    next
      case False
      with that n [of d'] show ?thesis by simp
    qed
    show ?thesis
      using e i n' mono len by (intro exI [of _ L'] exI [of _ m'] exI [of _ q'] exI [of _ vc']) auto
  qed
qed

text \<open>The BFS loop returns within \<open>2 * unvisited + |queue|\<close> iterations, one \<^verbatim>\<open>SEARCHING\<close> each.\<close>

lemma bfs_search_inv:
  assumes "bfs_inv m0 e L m vc q" and "2 * unvisited_count m + length q \<le> n"
  shows "\<exists>k m' found L' vc' q'. bfs_search n e m q vc = Some (replicate k SEARCHING, m', found)
     \<and> bfs_inv m0 e L' m' vc' q' \<and> (if found then q' \<noteq> [] \<and> hd q' = e else q' = [])
     \<and> k \<le> 2 * unvisited_count m + length q"
  using assms
proof (induction n arbitrary: L m vc q)
  case 0
  then have "q = []" by simp
  with 0 show ?case
    by (intro exI [of _ 0] exI [of _ m] exI [of _ False] exI [of _ L] exI [of _ vc]
          exI [of _ "[]"]) simp
next
  case (Suc n)
  show ?case
  proof (cases q)
    case Nil
    with Suc.prems show ?thesis
      by (intro exI [of _ 0] exI [of _ m] exI [of _ False] exI [of _ L] exI [of _ vc]
            exI [of _ "[]"]) simp
  next
    case (Cons cur q0)
    note inv = Suc.prems(1) [unfolded Cons]
    show ?thesis
    proof (cases "cur = e")
      case True
      with inv Cons show ?thesis
        by (intro exI [of _ 1] exI [of _ m] exI [of _ True] exI [of _ L] exI [of _ vc]
              exI [of _ "cur # q0"]) simp
    next
      case False
      from bfs_expand_inv [OF inv, of "[South, West, East, North]"] obtain L1 m1 q1 vc1 where
        r: "bfs_expand [South, West, East, North] m cur q0 vc = (m1, q1, vc1)"
        and i: "bfs_inv m0 e L1 m1 vc1 (cur # q1)"
        and n: "\<And>d. d \<in> set [South, West, East, North] \<Longrightarrow> canMove m cur d \<Longrightarrow>
                  visited m1 (move cur d)"
        and len: "int (length q1) - int (length q0) = vc1 - vc" "vc \<le> vc1"
        by blast
      have f: "forest m0 L m vc" by (rule bfs_inv_forest [OF inv])
      have f1: "forest m0 L1 m1 vc1" by (rule bfs_inv_forest [OF i])
      have nb: "visited m1 (move cur d)" if "canMove m1 cur d" for d
      proof -
        from that have c: "canMove m cur d" by (simp add: forest_canMove [OF f] forest_canMove [OF f1])
        then have "d \<in> set [South, West, East, North]" by (cases d) auto
        from n [OF this c] show ?thesis .
      qed
      have i1: "bfs_inv m0 e L1 m1 vc1 q1" by (rule bfs_inv_close [OF i False nb])
      have u: "int (unvisited_count m1) = int (unvisited_count m) - (vc1 - vc)"
        using forest_unvisited [OF f] forest_unvisited [OF f1] by simp
      have ms: "2 * unvisited_count m1 + length q1 \<le> n"
        using Suc.prems(2) u len Cons by simp
      from Suc.IH [OF i1 ms] obtain k m' found L' vc' q' where
        s: "bfs_search n e m1 q1 vc1 = Some (replicate k SEARCHING, m', found)"
        and i': "bfs_inv m0 e L' m' vc' q'"
        and fd: "if found then q' \<noteq> [] \<and> hd q' = e else q' = []"
        and kk: "k \<le> 2 * unvisited_count m1 + length q1"
        by blast
      have "bfs_search (Suc n) e m q vc = Some (replicate (Suc k) SEARCHING, m', found)"
        using False r s by (simp add: Cons)
      moreover have "Suc k \<le> 2 * unvisited_count m + length q"
        using kk u len Cons by simp
      ultimately show ?thesis using i' fd by blast
    qed
  qed
qed

text \<open>When the goal is at the head of the queue, no walk from Start reaches it in fewer steps
  than its level.\<close>

lemma bfs_walk_levels:
  assumes inv: "bfs_inv m0 e L m vc (e # q)"
  shows "linked m (x # xs) \<Longrightarrow> in_grid m x \<Longrightarrow> visited m x \<Longrightarrow> L x + length xs < L e \<Longrightarrow>
    L (last (x # xs)) \<le> L x + length xs"
proof (induction xs arbitrary: x)
  case Nil
  then show ?case by simp
next
  case (Cons y ys)
  from inv have srt: "sorted (map L (e # q))"
    and closed: "\<And>p d. in_grid m p \<Longrightarrow> visited m p \<Longrightarrow> p \<notin> set (e # q) \<Longrightarrow> canMove m p d \<Longrightarrow>
           visited m (move p d) \<and> L (move p d) \<le> Suc (L p)"
    by (auto simp: bfs_inv_def)
  have "L e \<le> L p" if "p \<in> set (e # q)" for p using srt that by auto
  with Cons.prems(4) have xq: "x \<notin> set (e # q)" by fastforce
  from Cons.prems(1) obtain d where d: "canMove m x d" "move x d = y"
    by (auto simp: open_edge_def)
  from closed [OF Cons.prems(2,3) xq d(1)] d(2) have y: "visited m y" "L y \<le> Suc (L x)"
    by simp_all
  have yg: "in_grid m y" using canMove_in_grid [OF Cons.prems(2) d(1)] d(2) by simp
  have "L (last (y # ys)) \<le> L y + length ys"
    using Cons.prems(1,4) y by (intro Cons.IH [OF _ yg y(1)]) simp_all
  with y show ?case by simp
qed

lemma bfs_shortest:
  assumes inv: "bfs_inv m0 e L m vc (e # q)"
    and ps: "linked m ps" "ps \<noteq> []" "hd ps = getStart m" "last ps = e"
  shows "Suc (L e) \<le> length ps"
proof (rule ccontr)
  assume "\<not> Suc (L e) \<le> length ps"
  then have lt: "length ps \<le> L e" by simp
  from ps(2) obtain x xs where xs: "ps = x # xs" by (cases ps) auto
  from inv have f: "forest m0 L m vc" by (rule bfs_inv_forest)
  then have st: "visited m (getStart m)" "L (getStart m) = 0" and wf: "wf_maze m"
    by (auto simp: forest_def)
  have "width m div 2 < width m" "0 \<le> width m div 2" using wf by (auto simp: wf_maze_def)
  then have sg: "in_grid m (getStart m)" using wf by (simp add: getStart_def in_grid_def wf_maze_def)
  have x: "x = getStart m" using ps(3) xs by simp
  have "L (last (x # xs)) \<le> L x + length xs"
    using ps(1) sg st lt xs x by (intro bfs_walk_levels [OF inv]) simp_all
  with ps(4) xs x st lt show False by simp
qed

text \<open>When the queue is empty, every cell that a walk from Start reaches is visited, and the
  goal is not.\<close>

lemma bfs_walk_visited:
  assumes inv: "bfs_inv m0 e L m vc []"
  shows "linked m (x # xs) \<Longrightarrow> in_grid m x \<Longrightarrow> visited m x \<Longrightarrow>
    in_grid m (last (x # xs)) \<and> visited m (last (x # xs))"
proof (induction xs arbitrary: x)
  case Nil
  then show ?case by simp
next
  case (Cons y ys)
  from inv have closed: "\<And>p d. in_grid m p \<Longrightarrow> visited m p \<Longrightarrow> canMove m p d \<Longrightarrow>
           visited m (move p d)"
    by (auto simp: bfs_inv_def)
  from Cons.prems(1) obtain d where d: "canMove m x d" "move x d = y"
    by (auto simp: open_edge_def)
  from closed [OF Cons.prems(2,3) d(1)] d(2) have y: "visited m y" by simp
  have yg: "in_grid m y" using canMove_in_grid [OF Cons.prems(2) d(1)] d(2) by simp
  from Cons.IH [OF _ yg y] Cons.prems(1) show ?case by simp
qed

lemma bfs_complete:
  assumes inv: "bfs_inv m0 e L m vc []"
    and ps: "linked m ps" "ps \<noteq> []" "hd ps = getStart m" "last ps = e"
  shows False
proof -
  from ps(2) obtain x xs where xs: "ps = x # xs" by (cases ps) auto
  from inv have f: "forest m0 L m vc" by (rule bfs_inv_forest)
  then have st: "visited m (getStart m)" and wf: "wf_maze m"
    by (auto simp: forest_def)
  have "width m div 2 < width m" "0 \<le> width m div 2" using wf by (auto simp: wf_maze_def)
  then have sg: "in_grid m (getStart m)" using wf by (simp add: getStart_def in_grid_def wf_maze_def)
  have "in_grid m (last (x # xs)) \<and> visited m (last (x # xs))"
    using ps(1,3) sg st xs by (intro bfs_walk_visited [OF inv]) simp_all
  with ps(4) xs inv show False by (simp add: bfs_inv_def)
qed

section \<open>The depth-first search\<close>








section \<open>The runs of BFS and DFS\<close>

text \<open>A maze ready for a solver, as \<^verbatim>\<open>Load\<close> and \<^verbatim>\<open>Reset\<close> leave it: positive dimensions, both
  arrays \<^verbatim>\<open>Int32Array\<close>s of width * height entries, fewer than \<open>2^31\<close> cells, every visit order
  -1 and no cell marked ON_PATH.\<close>

definition solver_ready :: "Maze \<Rightarrow> bool" where
  "solver_ready m \<longleftrightarrow> wf_maze m \<and> width m * height m < 2 ^ 31
     \<and> list_all (\<lambda>p. getVisitOrder m p = Some (- 1) \<and> \<not> hasFlag m p PATH_BIT) (all_cells m)"

text \<open>A walk from Start to End along open edges.\<close>

definition is_path :: "Maze \<Rightarrow> Position list \<Rightarrow> bool" where
  "is_path m ps \<longleftrightarrow> ps \<noteq> [] \<and> hd ps = getStart m \<and> last ps = getEnd m \<and> linked m ps"

lemma solver_ready_cell:
  assumes "solver_ready m" and "in_grid m p"
  shows "getVisitOrder m p = Some (- 1)" and "getCell m p AND PATH_BIT = 0"
  using assms by (simp_all add: solver_ready_def list_all_iff set_all_cells hasFlag_def)

lemma in_grid_getStart: "wf_maze m \<Longrightarrow> in_grid m (getStart m)"
proof -
  assume wf: "wf_maze m"
  then have "width m div 2 < width m" "0 \<le> width m div 2" by (auto simp: wf_maze_def)
  with wf show ?thesis by (simp add: getStart_def in_grid_def wf_maze_def)
qed

lemma in_grid_getEnd: "wf_maze m \<Longrightarrow> in_grid m (getEnd m)"
proof -
  assume wf: "wf_maze m"
  then have "width m div 2 < width m" "0 \<le> width m div 2" by (auto simp: wf_maze_def)
  with wf show ?thesis by (simp add: getEnd_def in_grid_def wf_maze_def)
qed

lemma forest_init:
  assumes r: "solver_ready m" and dr: "discovered m (getStart m) pd 0 m1"
  shows "forest m (\<lambda>p. 0) m1 1"
    and "in_grid m p \<Longrightarrow> visited m1 p \<longleftrightarrow> p = getStart m"
proof -
  from r have wf: "wf_maze m" and small: "width m * height m < 2 ^ 31"
    by (simp_all add: solver_ready_def)
  have nv: "\<not> visited m p" if "in_grid m p" for p
    using solver_ready_cell(1) [OF r that] by (simp add: visited_def)
  from dr have d: "width m1 = width m" "height m1 = height m" and wf1: "wf_maze m1"
    and vo: "\<And>q. in_grid m q \<Longrightarrow> getVisitOrder m1 q
                 = (if q = getStart m then Some 0 else getVisitOrder m q)"
    and v: "\<And>q. q \<noteq> getStart m \<Longrightarrow> view (getCell m1 q) = view (getCell m q)"
    and path_s: "getCell m1 (getStart m) AND PATH_BIT = getCell m (getStart m) AND PATH_BIT"
    by (auto simp: discovered_def)
  have z: "(0::int) \<noteq> - 1" by simp
  note df = discovered_facts [OF dr z]
  have sg: "in_grid m (getStart m)" by (rule in_grid_getStart [OF wf])
  show vis: "visited m1 p \<longleftrightarrow> p = getStart m" if "in_grid m p" for p
    using df(2) [OF that] nv [OF that] by simp
  have st: "getStart m1 = getStart m" by (rule getStart_cong [OF d(1)])
  have pth: "getCell m1 p AND PATH_BIT = 0" if "in_grid m p" for p
    using path_s view_path [OF v, of p] solver_ready_cell(2) [OF r that]
    by (cases "p = getStart m") auto
  have all_un: "filter (\<lambda>p. \<not> visited m p) (all_cells m) = all_cells m"
    by (rule filter_True) (simp add: set_all_cells nv)
  have um: "int (unvisited_count m) = width m * height m"
    using wf by (simp add: unvisited_count_def all_un length_all_cells wf_maze_def)
  have uc: "unvisited_count m = Suc (unvisited_count m1)"
    unfolding unvisited_count_def all_cells_cong [OF d]
  proof (rule filter_count_flip)
    show "distinct (all_cells m)" using wf by (simp add: distinct_all_cells wf_maze_def)
    show "getStart m \<in> set (all_cells m)" using sg by (simp add: set_all_cells)
    show "\<not> visited m (getStart m)" by (rule nv [OF sg])
    show "\<not> \<not> visited m1 (getStart m)" using vis [OF sg] by simp
    show "(\<not> visited m1 q) = (\<not> visited m q)" if "q \<in> set (all_cells m)" "q \<noteq> getStart m" for q
      using that vis [of q] nv [of q] by (simp add: set_all_cells)
  qed
  have lev: "\<exists>v. getVisitOrder m1 p = Some v \<and> int 0 \<le> v \<and> v < 1"
    if "in_grid m p" "visited m1 p" for p
    using vis [OF that(1)] that(2) vo [OF that(1)] by simp
  show "forest m (\<lambda>p. 0) m1 1"
    unfolding forest_def df(1) st d
    using wf1 small df(3) pth vis sg lev um uc by auto
qed

lemma setCell_setVisitOrder:
  "setCell (setVisitOrder m p n) q v = setVisitOrder (setCell m q v) p n"
  by (simp add: setCell_def setVisitOrder_def cellIndex_def)

lemma setDirectionRouteBT_setVisitOrder:
  "setDirectionRouteBT (setVisitOrder m p n) q d = setVisitOrder (setDirectionRouteBT m q d) p n"
  by (simp add: setDirectionRouteBT_setCell setCell_setVisitOrder)

lemma bfs_inv_init:
  assumes r: "solver_ready m"
  shows "bfs_inv m e (\<lambda>p. 0)
           (setDirectionRouteBT (setVisitOrder m (getStart m) 0) (getStart m) Uninitialized) 1
           [getStart m]"
proof -
  let ?m1 = "setDirectionRouteBT (setVisitOrder m (getStart m) 0) (getStart m) Uninitialized"
  from r have wf: "wf_maze m" by (simp add: solver_ready_def)
  have sg: "in_grid m (getStart m)" by (rule in_grid_getStart [OF wf])
  have dr: "discovered m (getStart m) Uninitialized 0 ?m1"
    unfolding setDirectionRouteBT_setVisitOrder by (rule discovered_bfs [OF wf sg]) simp_all
  note fi = forest_init [OF r dr]
  have z: "(0::int) \<noteq> - 1" by simp
  note df = discovered_facts [OF dr z]
  have vis: "visited ?m1 p \<longleftrightarrow> p = getStart m" if "in_grid ?m1 p" for p
    using fi(2) [of p] that df(1) [of p] by blast
  have g: "in_grid ?m1 (getStart m)" using sg df(1) by blast
  show ?thesis
    unfolding bfs_inv_def using fi(1) vis g by auto
qed


lemma unvisited_count_le: "wf_maze m \<Longrightarrow> int (unvisited_count m) \<le> width m * height m"
proof -
  assume wf: "wf_maze m"
  have "unvisited_count m \<le> length (all_cells m)"
    unfolding unvisited_count_def by (rule length_filter_le)
  with wf show ?thesis using length_all_cells [of m] by (simp add: wf_maze_def)
qed


lemma linked_cong:
  assumes "\<And>p d. canMove m' p d = canMove m p d"
  shows "linked m' ps = linked m ps"
proof (induction ps)
  case Nil
  show ?case by simp
next
  case (Cons p ps)
  then show ?case by (cases ps) (simp_all add: open_edge_def assms)
qed

lemma painted_facts:
  assumes pt: "painted mc S m" and f: "forest m0 L mc vc" and sub: "\<And>p. p \<in> S \<Longrightarrow> in_grid mc p"
  shows "canMove m p d = canMove m0 p d"
    and "set (on_path_list m) = S"
    and "getVisitOrder m p = getVisitOrder mc p"
    and "width m = width m0" and "height m = height m0"
proof -
  from pt have wf: "wf_maze m" and d: "width m = width mc" "height m = height mc"
    and gc: "\<And>q. getCell m q = (if q \<in> S \<and> in_grid mc q then getCell mc q OR PATH_BIT
                                   else getCell mc q)"
    and vo: "visitOrder m = visitOrder mc"
    by (auto simp: painted_def)
  from f have d0: "width mc = width m0" "height mc = height m0"
    and cm0: "\<And>p d. canMove mc p d = canMove m0 p d"
    and nopath: "\<And>p. in_grid mc p \<Longrightarrow> getCell mc p AND PATH_BIT = 0"
    by (auto simp: forest_def)
  have w3: "(c OR PATH_BIT) AND 3 = c AND 3" for c :: cell
    by (simp add: InternalBit_defs bit.conj_disj_distrib2)
  have "getCell m q AND 3 = getCell mc q AND 3" for q
    by (simp add: gc w3)
  then have "canMove m p d = canMove mc p d" by (rule canMove_cong [OF d])
  then show "canMove m p d = canMove m0 p d" by (simp add: cm0)
  have pb: "(c OR PATH_BIT) AND PATH_BIT \<noteq> 0" for c :: cell
    by (simp add: InternalBit_defs bit.conj_disj_distrib2)
  have "hasFlag m q PATH_BIT \<longleftrightarrow> q \<in> S" if "in_grid mc q" for q
    using that nopath [OF that] pb [of "getCell mc q"] by (auto simp: hasFlag_def gc)
  then show "set (on_path_list m) = S"
    using sub by (auto simp: on_path_list_def set_all_cells in_grid_cong [OF d])
  show "getVisitOrder m p = getVisitOrder mc p" by (rule getVisitOrder_cong [OF d(1) vo])
  show "width m = width m0" "height m = height m0" using d d0 by simp_all
qed

lemma distinct_on_path_list: "wf_maze m \<Longrightarrow> distinct (on_path_list m)"
  by (simp add: on_path_list_def distinct_all_cells wf_maze_def)

text \<open>The reconstruction from a visited End: \<open>L e + 1\<close> steps, and the cells marked are the
  chain of parents from End back to Start.\<close>

lemma finish_solve_found:
  assumes f: "forest m0 L mc vc" and e: "in_grid mc e" "visited mc e" "e = getEnd m0"
    and n: "nat (width m0 * height m0) \<le> n"
  shows "\<exists>m'. finish_solve n (getStart m0) e (Some (toks, mc, True))
            = Some (toks @ replicate (Suc (L e)) BACKTRACKING @ [FINISHED], m')
     \<and> is_chain m' (rev (up_chain mc (L e) e))
     \<and> length (on_path_list m') = Suc (L e)
     \<and> (\<forall>p d. canMove m' p d = canMove m0 p d)
     \<and> getVisitOrder m' e = getVisitOrder mc e
     \<and> Suc (L e) \<le> nat (width m0 * height m0)"
proof -
  from f have wf: "wf_maze mc" and d0: "width mc = width m0" "height mc = height m0"
    and lev: "\<And>p. in_grid mc p \<Longrightarrow> visited mc p \<Longrightarrow>
           \<exists>v. getVisitOrder mc p = Some v \<and> int (L p) \<le> v \<and> v < vc"
    and cnt: "vc + int (unvisited_count mc) = width mc * height mc"
    by (auto simp: forest_def)
  from lev [OF e(1,2)] have "int (L e) < vc" by auto
  with cnt have le: "int (L e) < width m0 * height m0" by (simp add: d0)
  then have ln: "L e < n" using n by linarith
  have st: "getStart mc = getStart m0" by (rule getStart_cong [OF d0(1)])
  let ?ch = "up_chain mc (L e) e"
  from mark_back_painted [OF f painted_refl [OF wf] e(1,2) ln] obtain m' where
    mb: "mark_back n mc (getStart m0) e = Some (replicate (Suc (L e)) BACKTRACKING, m')"
    and pt: "painted mc (set ?ch) m'"
    by (auto simp: st)
  from up_chain_props [OF f e(1,2) refl] have ch: "\<And>q. q \<in> set ?ch \<Longrightarrow> in_grid mc q"
    "hd ?ch = e" "last ?ch = getStart mc" "distinct ?ch" "linked mc (rev ?ch)"
    "length ?ch = Suc (L e)"
    by auto
  note pf = painted_facts [OF pt f ch(1)]
  have wf': "wf_maze m'" using pt by (simp add: painted_def)
  have ne: "?ch \<noteq> []" using ch(6) by auto
  have cm: "canMove m' p d = canMove mc p d" for p d
    using pf(1) f by (simp add: forest_def)
  have lk: "linked m' (rev ?ch)" using linked_cong [of m' mc, OF cm] ch(5) by simp
  have s': "getStart m' = getStart mc" "getEnd m' = e"
    using pf(4,5) d0 e(3) by (simp_all add: getStart_def getEnd_def)
  have chain: "is_chain m' (rev ?ch)"
    unfolding is_chain_def using ne ch(2,3,4) lk pf(2) s'
    by (simp add: hd_rev last_rev)
  have "distinct (on_path_list m')" by (rule distinct_on_path_list [OF wf'])
  then have "length (on_path_list m') = card (set (on_path_list m'))"
    by (simp add: distinct_card)
  also have "\<dots> = length ?ch" using pf(2) ch(4) by (simp add: distinct_card)
  finally have len: "length (on_path_list m') = Suc (L e)" using ch(6) by simp
  have fs: "finish_solve n (getStart m0) e (Some (toks, mc, True))
            = Some (toks @ replicate (Suc (L e)) BACKTRACKING @ [FINISHED], m')"
    by (simp add: finish_solve_def mb)
  have "Suc (L e) \<le> nat (width m0 * height m0)" using le by linarith
  with fs chain len pf(1,3) show ?thesis by blast
qed






lemma BFSSolver_solve_unfold:
  "BFSSolver_solve n m = finish_solve n (getStart m) (getEnd m)
     (bfs_search n (getEnd m)
        (setDirectionRouteBT (setVisitOrder m (getStart m) 0) (getStart m) Uninitialized)
        [getStart m] 1)"
  unfolding BFSSolver_solve_def Let_def ..


lemma finish_solve_None [simp]: "finish_solve n s e None = None"
  by (simp add: finish_solve_def)




lemma is_chain_path:
  assumes "is_chain m' qs" and "\<And>p d. canMove m' p d = canMove m p d"
    and "width m' = width m" and "height m' = height m"
  shows "is_path m qs"
  using assms linked_cong [of m' m qs]
  by (simp add: is_chain_def is_path_def getStart_def getEnd_def)

text \<open>What a run of BFS gives, with at least \<open>2 * cells\<close> iterations allowed.\<close>

lemma BFS_run:
  assumes r: "solver_ready m" and n: "2 * nat (width m * height m) \<le> n"
  shows "\<exists>k toks m'. BFSSolver_solve n m = Some (replicate k SEARCHING @ toks, m')
     \<and> k \<le> 2 * nat (width m * height m)
     \<and> ((toks = [NO_SOLUTION] \<and> (\<forall>ps. \<not> is_path m ps))
        \<or> (\<exists>j qs v. toks = replicate j BACKTRACKING @ [FINISHED]
              \<and> j \<le> nat (width m * height m)
              \<and> is_chain m' qs \<and> is_path m qs \<and> length (on_path_list m') = length qs
              \<and> (\<forall>ps. is_path m ps \<longrightarrow> length qs \<le> length ps)
              \<and> getVisitOrder m' (getEnd m) = Some v
              \<and> int (length qs) - 1 \<le> v \<and> v < width m * height m))"
proof -
  let ?s = "getStart m" and ?e = "getEnd m"
  let ?m1 = "setDirectionRouteBT (setVisitOrder m ?s 0) ?s Uninitialized"
  from r have wf: "wf_maze m" by (simp add: solver_ready_def)
  then have pos: "0 < width m * height m" by (simp add: wf_maze_def)
  have i0: "bfs_inv m ?e (\<lambda>p. 0) ?m1 1 [?s]" by (rule bfs_inv_init [OF r])
  have f0: "forest m (\<lambda>p. 0) ?m1 1" by (rule bfs_inv_forest [OF i0])
  have u0: "int (unvisited_count ?m1) = width m * height m - 1"
    by (rule forest_unvisited [OF f0])
  have ms: "2 * unvisited_count ?m1 + length [?s] \<le> n" using u0 n pos by simp
  from bfs_search_inv [OF i0 ms] obtain k mc found L vc q where
    s: "bfs_search n ?e ?m1 [?s] 1 = Some (replicate k SEARCHING, mc, found)"
    and i: "bfs_inv m ?e L mc vc q"
    and fd: "if found then q \<noteq> [] \<and> hd q = ?e else q = []"
    and kk: "k \<le> 2 * unvisited_count ?m1 + length [?s]"
    by blast
  have k2: "k \<le> 2 * nat (width m * height m)" using kk u0 pos by simp
  have f: "forest m L mc vc" by (rule bfs_inv_forest [OF i])
  then have d: "width mc = width m" "height mc = height m"
    and cnt: "vc + int (unvisited_count mc) = width mc * height mc"
    and lev: "\<And>p. in_grid mc p \<Longrightarrow> visited mc p \<Longrightarrow>
           \<exists>v. getVisitOrder mc p = Some v \<and> int (L p) \<le> v \<and> v < vc"
    by (auto simp: forest_def)
  have smc: "getStart mc = ?s" by (rule getStart_cong [OF d(1)])
  have path_mc: "linked mc ps \<and> ps \<noteq> [] \<and> hd ps = getStart mc \<and> last ps = ?e"
    if "is_path m ps" for ps
    using that linked_cong [of mc m ps] forest_canMove [OF f] by (simp add: is_path_def smc)
  show ?thesis
  proof (cases found)
    case False
    with fd have q: "q = []" by simp
    have no: "\<not> is_path m ps" for ps
      using bfs_complete [OF i [unfolded q], of ps] path_mc [of ps] by blast
    have "BFSSolver_solve n m = Some (replicate k SEARCHING @ [NO_SOLUTION], mc)"
      unfolding BFSSolver_solve_unfold s using False by (simp add: finish_solve_def)
    with k2 no show ?thesis by blast
  next
    case True
    with fd obtain q0 where q: "q = ?e # q0" by (cases q) auto
    note ie = i [unfolded q]
    from ie have e: "in_grid mc ?e" "visited mc ?e" by (auto simp: bfs_inv_def)
    have n': "nat (width m * height m) \<le> n" using n by simp
    from finish_solve_found [OF f e refl n', of "replicate k SEARCHING"] obtain m' where
      fs: "finish_solve n ?s ?e (Some (replicate k SEARCHING, mc, True))
             = Some (replicate k SEARCHING @ replicate (Suc (L ?e)) BACKTRACKING @ [FINISHED], m')"
      and ch: "is_chain m' (rev (up_chain mc (L ?e) ?e))"
      and len: "length (on_path_list m') = Suc (L ?e)"
      and cm: "\<And>p d. canMove m' p d = canMove m p d"
      and vo: "getVisitOrder m' ?e = getVisitOrder mc ?e"
      and le: "Suc (L ?e) \<le> nat (width m * height m)"
      by blast
    let ?qs = "rev (up_chain mc (L ?e) ?e)"
    have lq: "length ?qs = Suc (L ?e)"
      using up_chain_props [OF f e refl] by simp
    from ch have hl: "hd ?qs = getStart m'" "last ?qs = getEnd m'" "linked m' ?qs" "?qs \<noteq> []"
      by (simp_all add: is_chain_def)
    have pq: "is_path m ?qs"
    proof -
      from hl(1,2) have "getStart m' = getStart mc" "getEnd m' = ?e"
        using up_chain_props [OF f e refl] by (auto simp: hd_rev last_rev)
      with hl linked_cong [of m' m ?qs, OF cm] show ?thesis
        by (simp add: is_path_def smc)
    qed
    have short: "length ?qs \<le> length ps" if "is_path m ps" for ps
      using bfs_shortest [OF ie] path_mc [OF that] lq by simp
    from lev [OF e] obtain v where v: "getVisitOrder mc ?e = Some v" "int (L ?e) \<le> v" "v < vc"
      by blast
    have "vc \<le> width m * height m" using cnt d by simp
    with v vo lq have vv: "getVisitOrder m' ?e = Some v" "int (length ?qs) - 1 \<le> v"
      "v < width m * height m"
      by simp_all
    have "BFSSolver_solve n m
        = Some (replicate k SEARCHING @ replicate (Suc (L ?e)) BACKTRACKING @ [FINISHED], m')"
      unfolding BFSSolver_solve_unfold s using True fs by simp
    with k2 le ch pq len lq short vv show ?thesis
      by (intro exI [of _ k] exI [of _ "replicate (Suc (L ?e)) BACKTRACKING @ [FINISHED]"]
            exI [of _ m'] conjI disjI2 exI [of _ "Suc (L ?e)"] exI [of _ ?qs] exI [of _ v])
        simp_all
  qed
qed







text \<open>C3 amended: for every maze ready for a solver in which a path from Start to End exists,
  BFS ends with FINISHED, and the number of cells marked ON_PATH is the BFS distance from
  Start to End counted in cells (the number of cells of a shortest path, one more than the
  distance counted in edges): the marked cells are the cells of a path from Start to End, and
  no path from Start to End has fewer cells. The visit-order value stored at End is not that
  distance but the number of cells discovered before End: it is at least the number of marked
  cells minus 1 and less than the number of cells of the maze.\<close>

theorem BFS_shortest_path:
  assumes "solver_ready maze" and "is_path maze ps"
    and "2 * nat (width maze * height maze) \<le> n"
  shows "\<exists>toks maze' qs v. BFSSolver_solve n maze = Some (toks, maze')
     \<and> toks \<noteq> [] \<and> last toks = FINISHED
     \<and> is_chain maze' qs \<and> is_path maze qs \<and> length (on_path_list maze') = length qs
     \<and> length qs \<le> length ps \<and> (\<forall>ps'. is_path maze ps' \<longrightarrow> length qs \<le> length ps')
     \<and> getVisitOrder maze' (getEnd maze) = Some v
     \<and> int (length (on_path_list maze')) - 1 \<le> v \<and> v < width maze * height maze"
proof -
  from BFS_run [OF assms(1,3)] assms(2) obtain k m' j qs v where
    r: "BFSSolver_solve n maze
          = Some (replicate k SEARCHING @ replicate j BACKTRACKING @ [FINISHED], m')"
    and c: "is_chain m' qs" "is_path maze qs" "length (on_path_list m') = length qs"
      "\<forall>ps'. is_path maze ps' \<longrightarrow> length qs \<le> length ps'"
      "getVisitOrder m' (getEnd maze) = Some v" "int (length qs) - 1 \<le> v"
      "v < width maze * height maze"
    by blast
  from c(4) assms(2) have "length qs \<le> length ps" by blast
  with r c show ?thesis
    by (intro exI [of _ "replicate k SEARCHING @ replicate j BACKTRACKING @ [FINISHED]"]
          exI [of _ m'] exI [of _ qs] exI [of _ v]) simp
qed




theorem BFS_shortest_path_witness:
  "solver_ready maze_3x3_open
   \<and> is_path maze_3x3_open [Position 0 1, Position 1 1, Position 2 1]
   \<and> 2 * nat (width maze_3x3_open * height maze_3x3_open) \<le> 18
   \<and> run_summary (BFSSolver_solve 18 maze_3x3_open)
       = Some ([SEARCHING, SEARCHING, SEARCHING, SEARCHING, SEARCHING, BACKTRACKING,
                BACKTRACKING, BACKTRACKING, FINISHED],
               [Position 0 1, Position 1 1, Position 2 1])
   \<and> (\<exists>toks maze' qs v. BFSSolver_solve 18 maze_3x3_open = Some (toks, maze')
     \<and> toks \<noteq> [] \<and> last toks = FINISHED
     \<and> is_chain maze' qs \<and> is_path maze_3x3_open qs
     \<and> length (on_path_list maze') = length qs
     \<and> length qs \<le> length [Position 0 1, Position 1 1, Position 2 1]
     \<and> (\<forall>ps'. is_path maze_3x3_open ps' \<longrightarrow> length qs \<le> length ps')
     \<and> getVisitOrder maze' (getEnd maze_3x3_open) = Some v
     \<and> int (length (on_path_list maze')) - 1 \<le> v
     \<and> v < width maze_3x3_open * height maze_3x3_open)"
proof -
  have r: "solver_ready maze_3x3_open" by code_simp
  have p: "is_path maze_3x3_open [Position 0 1, Position 1 1, Position 2 1]" by code_simp
  have n: "2 * nat (width maze_3x3_open * height maze_3x3_open) \<le> 18" by code_simp
  have s: "run_summary (BFSSolver_solve 18 maze_3x3_open)
       = Some ([SEARCHING, SEARCHING, SEARCHING, SEARCHING, SEARCHING, BACKTRACKING,
                BACKTRACKING, BACKTRACKING, FINISHED],
               [Position 0 1, Position 1 1, Position 2 1])"
    by code_simp
  from BFS_shortest_path [OF r p n] r p n s show ?thesis by blast
qed

end
